theory Spec2Isabelle
  imports
    Main
    "HOL-Library.Word"
    "HOL-Library.Sublist"
    "HOL-Library.Extended_Nat"
begin

unbundle bit_operations_syntax

section \<open>Strings, bytes and the text codecs of the runtime\<close>

text \<open>
  A JavaScript string is a sequence of 16-bit code units; a \<open>Uint8Array\<close> holds octets.
  JavaScript numbers that are used as indices, nibbles and code points are natural numbers.
\<close>

type_synonym code_unit = "16 word"
type_synonym jsstring = "code_unit list"
type_synonym byte = "8 word"

text \<open>An ASCII literal of the source, as a JavaScript string.\<close>

definition js :: "string \<Rightarrow> jsstring" where
  "js s = map (\<lambda>c. of_nat (of_char c)) s"

definition isLeadSurrogate :: "code_unit \<Rightarrow> bool" where
  "isLeadSurrogate u = (0xD800 \<le> unat u \<and> unat u \<le> 0xDBFF)"

definition isTrailSurrogate :: "code_unit \<Rightarrow> bool" where
  "isTrailSurrogate u = (0xDC00 \<le> unat u \<and> unat u \<le> 0xDFFF)"

definition surrogatePair :: "code_unit \<Rightarrow> code_unit \<Rightarrow> nat" where
  "surrogatePair hi lo = 0x10000 + (unat hi - 0xD800) * 0x400 + (unat lo - 0xDC00)"

text \<open>
  \<open>Array.from(str).map((char) => char.codePointAt(0))\<close>: the string iterator joins a lead
  surrogate with the trail surrogate after it; an unpaired surrogate is a code point of its own.
\<close>

fun codePoints :: "jsstring \<Rightarrow> nat list" where
  "codePoints [] = []"
| "codePoints [u] = [unat u]"
| "codePoints (u # v # rest) =
     (if isLeadSurrogate u \<and> isTrailSurrogate v
      then surrogatePair u v # codePoints rest
      else unat u # codePoints (v # rest))"

text \<open>
  The conversion of a string to scalar values that \<open>TextEncoder\<close> applies to its argument:
  as above, but an unpaired surrogate becomes U+FFFD.
\<close>

fun scalarValues :: "jsstring \<Rightarrow> nat list" where
  "scalarValues [] = []"
| "scalarValues [u] = [if isLeadSurrogate u \<or> isTrailSurrogate u then 0xFFFD else unat u]"
| "scalarValues (u # v # rest) =
     (if isLeadSurrogate u \<and> isTrailSurrogate v
      then surrogatePair u v # scalarValues rest
      else (if isLeadSurrogate u \<or> isTrailSurrogate u then 0xFFFD else unat u)
             # scalarValues (v # rest))"

text \<open>\<open>String.fromCodePoint\<close> of one code point (UTF-16 encoding).\<close>

definition fromCodePoint :: "nat \<Rightarrow> jsstring" where
  "fromCodePoint cp =
     (if cp < 0x10000 then [of_nat cp]
      else [of_nat (0xD800 + (cp - 0x10000) div 0x400),
            of_nat (0xDC00 + (cp - 0x10000) mod 0x400)])"

definition fromCodePoints :: "nat list \<Rightarrow> jsstring" where
  "fromCodePoints cps = concat (map fromCodePoint cps)"

subsection \<open>UTF-8, as \<open>TextEncoder\<close> and \<open>TextDecoder\<close> implement it\<close>

definition utf8_encode_cp :: "nat \<Rightarrow> byte list" where
  "utf8_encode_cp cp =
     (if cp \<le> 0x7F then [of_nat cp]
      else if cp \<le> 0x7FF then
        [of_nat (0xC0 + cp div 0x40), of_nat (0x80 + cp mod 0x40)]
      else if cp \<le> 0xFFFF then
        [of_nat (0xE0 + cp div 0x1000), of_nat (0x80 + cp div 0x40 mod 0x40),
         of_nat (0x80 + cp mod 0x40)]
      else
        [of_nat (0xF0 + cp div 0x40000), of_nat (0x80 + cp div 0x1000 mod 0x40),
         of_nat (0x80 + cp div 0x40 mod 0x40), of_nat (0x80 + cp mod 0x40)])"

definition TextEncoder_encode :: "jsstring \<Rightarrow> byte list" where
  "TextEncoder_encode str = concat (map utf8_encode_cp (scalarValues str))"

text \<open>
  The UTF-8 decoder of the Encoding Standard, with its replacement error mode: the state holds
  the code point under construction, the number of continuation bytes needed and seen, and the
  bounds the next continuation byte must respect.
\<close>

record utf8_state =
  code_point :: nat
  bytes_needed :: nat
  bytes_seen :: nat
  lower_boundary :: nat
  upper_boundary :: nat

definition utf8_initial :: utf8_state where
  "utf8_initial =
     \<lparr>code_point = 0, bytes_needed = 0, bytes_seen = 0,
      lower_boundary = 0x80, upper_boundary = 0xBF\<rparr>"

text \<open>A byte read while no continuation byte is needed.\<close>

definition utf8_lead :: "nat \<Rightarrow> nat list \<times> utf8_state" where
  "utf8_lead b =
     (if b \<le> 0x7F then ([b], utf8_initial)
      else if 0xC2 \<le> b \<and> b \<le> 0xDF then
        ([], utf8_initial\<lparr>bytes_needed := 1, code_point := b mod 0x20\<rparr>)
      else if 0xE0 \<le> b \<and> b \<le> 0xEF then
        ([], utf8_initial\<lparr>bytes_needed := 2, code_point := b mod 0x10,
                           lower_boundary := (if b = 0xE0 then 0xA0 else 0x80),
                           upper_boundary := (if b = 0xED then 0x9F else 0xBF)\<rparr>)
      else if 0xF0 \<le> b \<and> b \<le> 0xF4 then
        ([], utf8_initial\<lparr>bytes_needed := 3, code_point := b mod 0x8,
                           lower_boundary := (if b = 0xF0 then 0x90 else 0x80),
                           upper_boundary := (if b = 0xF4 then 0x8F else 0xBF)\<rparr>)
      else ([0xFFFD], utf8_initial))"

text \<open>
  One byte of input. A byte outside the bounds ends the sequence under construction with
  U+FFFD and is then read again as a first byte.
\<close>

definition utf8_step :: "utf8_state \<Rightarrow> nat \<Rightarrow> nat list \<times> utf8_state" where
  "utf8_step st b =
     (if bytes_needed st = 0 then utf8_lead b
      else if b < lower_boundary st \<or> upper_boundary st < b then
        (case utf8_lead b of (out, st') \<Rightarrow> (0xFFFD # out, st'))
      else
        (let cp = code_point st * 0x40 + b mod 0x40;
             seen = bytes_seen st + 1
         in if seen \<noteq> bytes_needed st
            then ([], st\<lparr>code_point := cp, bytes_seen := seen,
                         lower_boundary := 0x80, upper_boundary := 0xBF\<rparr>)
            else ([cp], utf8_initial)))"

fun utf8_run :: "utf8_state \<Rightarrow> byte list \<Rightarrow> nat list" where
  "utf8_run st [] = (if bytes_needed st \<noteq> 0 then [0xFFFD] else [])"
| "utf8_run st (b # bs) =
     (case utf8_step st (unat b) of (out, st') \<Rightarrow> out @ utf8_run st' bs)"

text \<open>\<open>new TextDecoder()\<close> has \<open>ignoreBOM = false\<close>: a leading U+FEFF is not output.\<close>

fun dropBOM :: "nat list \<Rightarrow> nat list" where
  "dropBOM [] = []"
| "dropBOM (cp # cps) = (if cp = 0xFEFF then cps else cp # cps)"

definition TextDecoder_decode :: "byte list \<Rightarrow> jsstring" where
  "TextDecoder_decode bytes = fromCodePoints (dropBOM (utf8_run utf8_initial bytes))"

text \<open>\<open>text.indexOf(needle)\<close>: \<open>None\<close> is the source's \<open>-1\<close>.\<close>

fun indexOf :: "jsstring \<Rightarrow> jsstring \<Rightarrow> nat option" where
  "indexOf [] needle = (if needle = [] then Some 0 else None)"
| "indexOf (u # text) needle =
     (if prefix needle (u # text) then Some 0 else map_option (\<lambda>i. i + 1) (indexOf text needle))"

text \<open>\<open>Math.min(...xs)\<close> is \<open>Infinity\<close> on no arguments.\<close>

definition Math_min :: "nat list \<Rightarrow> enat" where
  "Math_min xs = fold (\<lambda>x m. min (enat x) m) xs \<infinity>"

text \<open>\<open>text.substring(start)\<close> clamps \<open>start\<close> to the length of \<open>text\<close>.\<close>

definition substring :: "jsstring \<Rightarrow> enat \<Rightarrow> jsstring" where
  "substring text start = (case start of enat n \<Rightarrow> drop n text | \<infinity> \<Rightarrow> [])"

section \<open>The invisible-character codec (\<open>util/invisible\<close>)\<close>

datatype error =
    InvalidInvisibleCharacter nat
  | MissingRequiredFields
  | GaxiosError "string list option"
  | OtherError string

definition invisibleChars :: "nat list" where
  "invisibleChars = map (\<lambda>i. 0x2060 + i) [0..<16]"

definition encode :: "jsstring \<Rightarrow> jsstring" where
  "encode str =
     (let nibbles =
            map (\<lambda>i. invisibleChars ! i)
              (concat (map (\<lambda>byte. [unat (drop_bit 4 byte), unat (byte AND 0xf)])
                 (TextEncoder_encode str)))
      in fromCodePoints nibbles)"

text \<open>\<open>invisibleChars.indexOf(codepoint)\<close>, with the source's \<open>throw\<close> on \<open>-1\<close>.\<close>

fun indexOfChar :: "nat list \<Rightarrow> nat \<Rightarrow> nat option" where
  "indexOfChar [] c = None"
| "indexOfChar (x # xs) c = (if x = c then Some 0 else map_option (\<lambda>i. i + 1) (indexOfChar xs c))"

fun toNibbles :: "nat list \<Rightarrow> error + nat list" where
  "toNibbles [] = Inr []"
| "toNibbles (codepoint # rest) =
     (case indexOfChar invisibleChars codepoint of
        None \<Rightarrow> Inl (InvalidInvisibleCharacter codepoint)
      | Some index \<Rightarrow>
          (case toNibbles rest of Inl e \<Rightarrow> Inl e | Inr ns \<Rightarrow> Inr (index # ns)))"

text \<open>
  The loop \<open>for (i = 0; i < nibbles.length - 1; i += 2) bytes[i / 2] = (nibbles[i] << 4) | nibbles[i + 1]\<close>
  over a \<open>Uint8Array\<close> of \<open>nibbles.length / 2\<close> (rounded down) octets: a last unpaired nibble
  is dropped, and a store keeps the low eight bits.
\<close>

fun pairNibbles :: "nat list \<Rightarrow> byte list" where
  "pairNibbles (hi # lo # rest) = of_nat (push_bit 4 hi OR lo) # pairNibbles rest"
| "pairNibbles _ = []"

definition decode :: "jsstring \<Rightarrow> error + jsstring" where
  "decode encoded =
     (case toNibbles (codePoints encoded) of
        Inl e \<Rightarrow> Inl e
      | Inr nibbles \<Rightarrow> Inr (TextDecoder_decode (pairNibbles nibbles)))"

definition appendInvisible :: "jsstring \<Rightarrow> jsstring \<Rightarrow> jsstring" where
  "appendInvisible visible invisible = visible @ encode invisible"

definition decodeAppendedInvisible :: "jsstring \<Rightarrow> error + jsstring" where
  "decodeAppendedInvisible text =
     (let indexOfInvisible =
            Math_min (List.map_filter (\<lambda>char. indexOf text (fromCodePoint char)) invisibleChars)
      in decode (substring text indexOfInvisible))"


text \<open>Predicates used to state the properties of the codec.\<close>

definition isInvisible :: "code_unit \<Rightarrow> bool" where
  "isInvisible u = (unat u \<in> set invisibleChars)"

definition isScalarValue :: "nat \<Rightarrow> bool" where
  "isScalarValue cp = (cp < 0x110000 \<and> \<not> (0xD800 \<le> cp \<and> cp \<le> 0xDFFF))"

text \<open>\<open>str.isWellFormed()\<close>: no unpaired surrogate.\<close>

fun isWellFormed :: "jsstring \<Rightarrow> bool" where
  "isWellFormed [] = True"
| "isWellFormed [u] = (\<not> isLeadSurrogate u \<and> \<not> isTrailSurrogate u)"
| "isWellFormed (u # v # rest) =
     (if isLeadSurrogate u \<and> isTrailSurrogate v then isWellFormed rest
      else \<not> isLeadSurrogate u \<and> \<not> isTrailSurrogate u \<and> isWellFormed (v # rest))"

definition nibblesOf :: "byte list \<Rightarrow> nat list" where
  "nibblesOf bytes = concat (map (\<lambda>byte. [unat (drop_bit 4 byte), unat (byte AND 0xf)]) bytes)"

definition firstInvisible :: "jsstring \<Rightarrow> enat" where
  "firstInvisible text =
     Math_min (List.map_filter (\<lambda>char. indexOf text (fromCodePoint char)) invisibleChars)"

section \<open>Regular expressions, as the source's pattern uses them\<close>

text \<open>
  The fragment of the regular expressions of the language that the pattern of
  \<open>extractFileIds\<close> is written in: literals, character classes, sequence, alternative,
  the greedy quantifiers and one capturing group. The pattern has neither the \<open>i\<close> nor the
  \<open>u\<close> flag, so it reads code units.
\<close>

datatype regex =
    Lit jsstring
  | Class "code_unit \<Rightarrow> bool"
  | Seq regex regex
  | Alt regex regex
  | Opt regex
  | Star regex
  | Group regex

text \<open>\<open>r+\<close> and \<open>r{n,}\<close>.\<close>

definition Plus :: "regex \<Rightarrow> regex" where
  "Plus r = Seq r (Star r)"

fun AtLeast :: "nat \<Rightarrow> regex \<Rightarrow> regex" where
  "AtLeast 0 r = Star r"
| "AtLeast (Suc n) r = Seq r (AtLeast n r)"

text \<open>
  The backtracking matcher. A state is the input that is left and the content of the capturing
  group; the result lists the states in which a match of the expression at the start of the
  input can end, in the order in which backtracking tries them (a greedy quantifier tries
  one more iteration first). An iteration of \<open>*\<close> that consumes nothing is not taken.
\<close>

type_synonym mstate = "jsstring \<times> jsstring option"

fun matches :: "regex \<Rightarrow> mstate \<Rightarrow> mstate list" where
  "matches (Lit w) (s, c) = (if prefix w s then [(drop (length w) s, c)] else [])"
| "matches (Class p) (s, c) = (case s of [] \<Rightarrow> [] | u # t \<Rightarrow> if p u then [(t, c)] else [])"
| "matches (Seq a b) st = concat (map (matches b) (matches a st))"
| "matches (Alt a b) st = matches a st @ matches b st"
| "matches (Opt a) st = matches a st @ [st]"
| "matches (Star a) (s, c) =
     concat (map (\<lambda>(t, c'). if length t < length s then matches (Star a) (t, c') else [])
                 (matches a (s, c)))
     @ [(s, c)]"
| "matches (Group a) (s, c) =
     map (\<lambda>(t, c'). (t, Some (take (length s - length t) s))) (matches a (s, c))"

text \<open>
  \<open>[...str.matchAll(regex)]\<close> for a global expression: the next match is searched from
  the end of the last one, at the leftmost index where the expression matches; after an empty
  match the search moves on by one code unit. Each element is the match and its group.
\<close>

function matchAll :: "regex \<Rightarrow> jsstring \<Rightarrow> (jsstring \<times> jsstring option) list" where
  "matchAll r s =
     (case matches r (s, None) of
        [] \<Rightarrow> (case s of [] \<Rightarrow> [] | _ # s' \<Rightarrow> matchAll r s')
      | (t, c) # _ \<Rightarrow>
          (take (length s - length t) s, c)
            # (if length t < length s then matchAll r t
               else (case s of [] \<Rightarrow> [] | _ # s' \<Rightarrow> matchAll r s')))"
  by pat_completeness auto
termination
  by (relation "measure (\<lambda>(r, s). length s)") auto

text \<open>The classes \<open>\s\<close> and \<open>\w\<close> of the language, on code units.\<close>

definition isWhiteSpace :: "code_unit \<Rightarrow> bool" where
  "isWhiteSpace u =
     (u \<in> {0x09, 0x0A, 0x0B, 0x0C, 0x0D, 0x20, 0xA0, 0x1680, 0x2028, 0x2029, 0x202F, 0x205F,
            0x3000, 0xFEFF}
      \<or> (0x2000 \<le> unat u \<and> unat u \<le> 0x200A))"

definition isWordChar :: "code_unit \<Rightarrow> bool" where
  "isWordChar u =
     ((0x41 \<le> unat u \<and> unat u \<le> 0x5A) \<or> (0x61 \<le> unat u \<and> unat u \<le> 0x7A)
      \<or> (0x30 \<le> unat u \<and> unat u \<le> 0x39) \<or> u = 0x5F)"

section \<open>\<open>embeds.ts\<close>\<close>

subsection \<open>\<open>extractFileIds\<close>\<close>

text \<open>\<open>[^\s'"\)]\<close>, \<open>[^\s"\)'.?!]\<close> and \<open>[-\w]\<close>.\<close>

definition notSeparator :: "code_unit \<Rightarrow> bool" where
  "notSeparator u = (\<not> (isWhiteSpace u \<or> u \<in> {0x27, 0x22, 0x29}))"

definition notTrailing :: "code_unit \<Rightarrow> bool" where
  "notTrailing u = (\<not> (isWhiteSpace u \<or> u \<in> {0x22, 0x29, 0x27, 0x2E, 0x3F, 0x21}))"

definition idChar :: "code_unit \<Rightarrow> bool" where
  "idChar u = (u = 0x2D \<or> isWordChar u)"

text \<open>
  \<open>/https?:\/\/(?:drive|docs)\.google\.com\/[^\s'"\)]+\/(?:d|e|folders)\/([-\w]{25,})(?:\/[^\s'"\)]*[^\s"\)'.?!])?/g\<close>
\<close>

definition regex_host :: regex where
  "regex_host =
     Seq (Lit (js ''http'')) (Seq (Opt (Lit (js ''s''))) (Seq (Lit (js ''://''))
       (Seq (Alt (Lit (js ''drive'')) (Lit (js ''docs''))) (Lit (js ''.google.com/'')))))"

definition regex_segment :: regex where
  "regex_segment =
     Seq (Lit (js ''/'')) (Seq (Alt (Lit (js ''d'')) (Alt (Lit (js ''e'')) (Lit (js ''folders''))))
       (Lit (js ''/'')))"

definition regex_tail :: regex where
  "regex_tail = Opt (Seq (Lit (js ''/'')) (Seq (Star (Class notSeparator)) (Class notTrailing)))"

definition regex :: regex where
  "regex =
     Seq regex_host (Seq (Plus (Class notSeparator)) (Seq regex_segment
       (Seq (Group (AtLeast 25 (Class idChar))) regex_tail)))"

record fileRef =
  url :: jsstring
  fileId :: jsstring

text \<open>
  The group of the pattern is not optional, so it is set in every match; the second case
  stands for the \<open>undefined\<close> that the source's \<open>id!\<close> rules out.
\<close>

definition extractFileIds :: "jsstring \<Rightarrow> fileRef list" where
  "extractFileIds content =
     map (\<lambda>(url, id). \<lparr>url = url, fileId = (case id of Some i \<Rightarrow> i | None \<Rightarrow> [])\<rparr>)
       (matchAll regex content)"


subsection \<open>Messages, embeds and files\<close>

text \<open>
  The data of an embed (\<open>APIEmbed\<close>) is an object of properties; the values that occur are
  strings and numbers.
\<close>

datatype jsval = JString jsstring | JNumber int

type_synonym embedData = "(string \<times> jsval) list"

text \<open>The getters \<open>embed.title\<close> and \<open>embed.url\<close>: the property, or \<open>null\<close>.\<close>

definition embedTitle :: "embedData \<Rightarrow> jsstring option" where
  "embedTitle e = (case map_of e ''title'' of Some (JString t) \<Rightarrow> Some t | _ \<Rightarrow> None)"

definition embedUrl :: "embedData \<Rightarrow> jsstring option" where
  "embedUrl e = (case map_of e ''url'' of Some (JString t) \<Rightarrow> Some t | _ \<Rightarrow> None)"

record message =
  messageId :: jsstring
  channelId :: jsstring
  authorId :: jsstring
  clientUserId :: jsstring
  createdTimestamp :: int
  content :: jsstring
  embeds :: "embedData list"
  suppressEmbedsFlag :: bool

text \<open>The options of a message to send or to edit to: its embeds and its flags.\<close>

record messageOptions =
  optEmbeds :: "embedData list"
  optFlags :: nat

text \<open>\<open>drive_v3.Schema$File\<close>, the four fields that are requested.\<close>

record driveFile =
  name :: "jsstring option"
  webViewLink :: "jsstring option"
  mimeType :: "jsstring option"
  modifiedTime :: "jsstring option"

text \<open>The options that the source passes to \<open>normalizeUrl\<close>.\<close>

record normalizeUrlOptions =
  defaultProtocol :: string
  normalizeProtocol :: bool
  forceHttps :: bool
  removeExplicitPort :: bool
  stripHash :: bool
  removeQueryParameters :: bool

text \<open>
  What the source calls and does not define: the file store (\<open>driveClient.files.get\<close>, with
  the rejection as \<open>Inl\<close>), \<open>Date\<close> (the time value of a date string, \<open>None\<close> for
  \<open>NaN\<close>, and \<open>toISOString\<close>), the checks of \<open>EmbedBuilder\<close> on the data it is given, and
  \<open>normalizeUrl\<close> (which throws on what is not a URL).
\<close>

record runtime =
  filesGet :: "jsstring \<Rightarrow> error + driveFile"
  dateParse :: "jsstring \<Rightarrow> int option"
  toISOString :: "int \<Rightarrow> jsstring"
  builderAccepts :: "embedData \<Rightarrow> bool"
  normalizeUrl :: "normalizeUrlOptions \<Rightarrow> jsstring \<Rightarrow> error + jsstring"

text \<open>
  The chat platform, over a state \<open>'w\<close> of its own: the history query, the timer, and the
  requests that send, edit and delete a message and toggle the suppression of its previews.
\<close>

record 'w platform =
  fetchMessages :: "jsstring \<Rightarrow> jsstring \<Rightarrow> nat \<Rightarrow> 'w \<Rightarrow> (error + message list) \<times> 'w"
  sleep :: "nat \<Rightarrow> 'w \<Rightarrow> 'w"
  channelSend :: "jsstring \<Rightarrow> messageOptions \<Rightarrow> 'w \<Rightarrow> (error + unit) \<times> 'w"
  messageEdit :: "message \<Rightarrow> messageOptions \<Rightarrow> 'w \<Rightarrow> (error + unit) \<times> 'w"
  messageDelete :: "message \<Rightarrow> 'w \<Rightarrow> (error + unit) \<times> 'w"
  messageSuppressEmbeds :: "message \<Rightarrow> bool \<Rightarrow> 'w \<Rightarrow> (error + unit) \<times> 'w"

text \<open>The requests made, in order, are recorded next to the state of the platform.\<close>

datatype effect =
    Fetch jsstring jsstring nat
  | Sleep nat
  | Send jsstring messageOptions
  | Edit message messageOptions
  | Delete message
  | Suppress message bool

record 'w state =
  world :: 'w
  trace :: "effect list"

definition doFetch ::
  "'w platform \<Rightarrow> jsstring \<Rightarrow> jsstring \<Rightarrow> nat \<Rightarrow> 'w state \<Rightarrow> (error + message list) \<times> 'w state" where
  "doFetch P channel after limit s =
     (case fetchMessages P channel after limit (world s) of
        (r, w) \<Rightarrow> (r, \<lparr>world = w, trace = trace s @ [Fetch channel after limit]\<rparr>))"

definition doSleep :: "'w platform \<Rightarrow> nat \<Rightarrow> 'w state \<Rightarrow> 'w state" where
  "doSleep P ms s = \<lparr>world = sleep P ms (world s), trace = trace s @ [Sleep ms]\<rparr>"

definition doSend ::
  "'w platform \<Rightarrow> jsstring \<Rightarrow> messageOptions \<Rightarrow> 'w state \<Rightarrow> (error + unit) \<times> 'w state" where
  "doSend P channel opts s =
     (case channelSend P channel opts (world s) of
        (r, w) \<Rightarrow> (r, \<lparr>world = w, trace = trace s @ [Send channel opts]\<rparr>))"

definition doEdit ::
  "'w platform \<Rightarrow> message \<Rightarrow> messageOptions \<Rightarrow> 'w state \<Rightarrow> (error + unit) \<times> 'w state" where
  "doEdit P m opts s =
     (case messageEdit P m opts (world s) of
        (r, w) \<Rightarrow> (r, \<lparr>world = w, trace = trace s @ [Edit m opts]\<rparr>))"

definition doDelete :: "'w platform \<Rightarrow> message \<Rightarrow> 'w state \<Rightarrow> (error + unit) \<times> 'w state" where
  "doDelete P m s =
     (case messageDelete P m (world s) of
        (r, w) \<Rightarrow> (r, \<lparr>world = w, trace = trace s @ [Delete m]\<rparr>))"

definition doSuppress ::
  "'w platform \<Rightarrow> message \<Rightarrow> bool \<Rightarrow> 'w state \<Rightarrow> (error + unit) \<times> 'w state" where
  "doSuppress P m b s =
     (case messageSuppressEmbeds P m b (world s) of
        (r, w) \<Rightarrow> (r, \<lparr>world = w, trace = trace s @ [Suppress m b]\<rparr>))"

subsection \<open>\<open>retrieveOldEmbedsMessage\<close>\<close>

text \<open>
  The callback of \<open>find\<close>: a message without embeds, or whose first embed has no title or
  an empty one, is passed over; otherwise the title is decoded, which can throw.
\<close>

definition isEmbedsMessageOf :: "jsstring \<Rightarrow> message \<Rightarrow> error + bool" where
  "isEmbedsMessageOf sourceId m =
     (case embeds m of
        [] \<Rightarrow> Inr False
      | firstEmbed # _ \<Rightarrow>
          (case embedTitle firstEmbed of
             None \<Rightarrow> Inr False
           | Some title \<Rightarrow>
               if title = [] then Inr False
               else (case decodeAppendedInvisible title of
                       Inl e \<Rightarrow> Inl e
                     | Inr decoded \<Rightarrow> Inr (sourceId = decoded))))"

text \<open>\<open>find\<close> with a callback that can throw: the elements are tried in order.\<close>

fun findFirst :: "('a \<Rightarrow> error + bool) \<Rightarrow> 'a list \<Rightarrow> error + 'a option" where
  "findFirst p [] = Inr None"
| "findFirst p (x # xs) =
     (case p x of
        Inl e \<Rightarrow> Inl e
      | Inr found \<Rightarrow> if found then Inr (Some x) else findFirst p xs)"

text \<open>
  \<open>history.filter(...).sort(...).find(...)\<close>; the sort of a collection is stable.
\<close>

definition findOldEmbedsMessage ::
  "jsstring \<Rightarrow> jsstring \<Rightarrow> message list \<Rightarrow> error + message option" where
  "findOldEmbedsMessage sourceId botUserId history =
     findFirst (isEmbedsMessageOf sourceId)
       (sort_key createdTimestamp (filter (\<lambda>m. authorId m = botUserId) history))"

text \<open>
  The retry budget is a number of the language: \<open>!maxRetries\<close> holds of zero only, so a
  negative budget never stops the retries. Not returning is the value \<open>None\<close>.
\<close>

partial_function (option) retrieveOldEmbedsMessage ::
  "'w platform \<Rightarrow> message \<Rightarrow> int \<Rightarrow> 'w state \<Rightarrow> ((error + message option) \<times> 'w state) option"
where
  "retrieveOldEmbedsMessage P message maxRetries s =
     (case doFetch P (channelId message) (messageId message) 10 s of
        (Inl e, s1) \<Rightarrow> Some (Inl e, s1)
      | (Inr history, s1) \<Rightarrow>
          (case findOldEmbedsMessage (messageId message) (clientUserId message) history of
             Inl e \<Rightarrow> Some (Inl e, s1)
           | Inr oldEmbedsMessage \<Rightarrow>
               if oldEmbedsMessage \<noteq> None \<or> maxRetries = 0
               then Some (Inr oldEmbedsMessage, s1)
               else retrieveOldEmbedsMessage P message (maxRetries - 1) (doSleep P 1000 s1)))"

declare retrieveOldEmbedsMessage.simps [code]

subsection \<open>\<open>createEmbedsMessage\<close>\<close>

text \<open>
  The rejection of a request is ignored when it is a \<open>GaxiosError\<close> whose response lists
  the reason \<open>notFound\<close>.
\<close>

definition isNotFound :: "error \<Rightarrow> bool" where
  "isNotFound e =
     (case e of GaxiosError (Some reasons) \<Rightarrow> ''notFound'' \<in> set reasons | _ \<Rightarrow> False)"

text \<open>
  \<open>Promise.all\<close> of the requests, one for each id: a request that is rejected otherwise
  rejects the whole. Then the \<open>undefined\<close> results are filtered out.
\<close>

fun getFiles :: "runtime \<Rightarrow> jsstring list \<Rightarrow> error + driveFile option list" where
  "getFiles R [] = Inr []"
| "getFiles R (fid # fids) =
     (case (case filesGet R fid of
              Inr data \<Rightarrow> Inr (Some data)
            | Inl e \<Rightarrow> if isNotFound e then Inr None else Inl e) of
        Inl e \<Rightarrow> Inl e
      | Inr file \<Rightarrow> (case getFiles R fids of Inl e \<Rightarrow> Inl e | Inr files \<Rightarrow> Inr (file # files)))"

definition resolveFiles :: "runtime \<Rightarrow> jsstring list \<Rightarrow> error + driveFile list" where
  "resolveFiles R fileIds =
     (case getFiles R fileIds of
        Inl e \<Rightarrow> Inl e
      | Inr files \<Rightarrow> Inr (List.map_filter (\<lambda>file. file) files))"

text \<open>\<open>fileTypes\<close> of \<open>gdrive.ts\<close>, with the number that each colour resolves to.\<close>

definition fileTypes :: "(string \<times> jsstring option \<times> int) list" where
  "fileTypes =
     [(''docs'', Some (js ''application/vnd.google-apps.document''), 0x4285f4),
      (''sheets'', Some (js ''application/vnd.google-apps.spreadsheet''), 0x0f9d58),
      (''slides'', Some (js ''application/vnd.google-apps.presentation''), 0xf4b400),
      (''forms'', Some (js ''application/vnd.google-apps.form''), 0x7627bb),
      (''others'', None, 0xe3e5e8)]"

definition colorOf :: "jsstring \<Rightarrow> int" where
  "colorOf mime =
     (case find (\<lambda>(_, m, _). m = Some mime) fileTypes of
        Some (_, _, color) \<Rightarrow> color
      | None \<Rightarrow> 0xe3e5e8)"

text \<open>A string of the language is truthy when it is there and not empty.\<close>

definition truthy :: "jsstring option \<Rightarrow> bool" where
  "truthy v = (case v of None \<Rightarrow> False | Some s \<Rightarrow> s \<noteq> [])"

text \<open>
  The callback of \<open>files.map\<close>, for the file at index \<open>i\<close>. The setters of the builder
  check the title, the link and the colour; \<open>setTimestamp\<close> renders the date, which throws
  on an invalid one.
\<close>

definition buildEmbed :: "runtime \<Rightarrow> jsstring \<Rightarrow> nat \<Rightarrow> driveFile \<Rightarrow> error + embedData" where
  "buildEmbed R sourceId i file =
     (if \<not> (truthy (name file) \<and> truthy (webViewLink file) \<and> truthy (mimeType file)
             \<and> truthy (modifiedTime file))
      then Inl MissingRequiredFields
      else
        (let title = (if i > 0 then the (name file) else appendInvisible (the (name file)) sourceId);
             data = [(''title'', JString title),
                     (''url'', JString (the (webViewLink file))),
                     (''color'', JNumber (colorOf (the (mimeType file))))]
         in if \<not> builderAccepts R data then Inl (OtherError ''EmbedBuilder: invalid data'')
            else (case dateParse R (the (modifiedTime file)) of
                    None \<Rightarrow> Inl (OtherError ''RangeError: Invalid time value'')
                  | Some instant \<Rightarrow>
                      Inr (data @ [(''timestamp'', JString (toISOString R instant))]))))"

fun buildEmbeds :: "runtime \<Rightarrow> jsstring \<Rightarrow> nat \<Rightarrow> driveFile list \<Rightarrow> error + embedData list" where
  "buildEmbeds R sourceId i [] = Inr []"
| "buildEmbeds R sourceId i (file # files) =
     (case buildEmbed R sourceId i file of
        Inl e \<Rightarrow> Inl e
      | Inr data \<Rightarrow>
          (case buildEmbeds R sourceId (i + 1) files of
             Inl e \<Rightarrow> Inl e
           | Inr rest \<Rightarrow> Inr (data # rest)))"

text \<open>\<open>MessageFlags.SuppressNotifications\<close> is bit 12.\<close>

definition SuppressNotifications :: nat where
  "SuppressNotifications = 4096"

definition createEmbedsMessage ::
  "runtime \<Rightarrow> jsstring list \<Rightarrow> jsstring \<Rightarrow> error + messageOptions option" where
  "createEmbedsMessage R fileIds sourceId =
     (case resolveFiles R fileIds of
        Inl e \<Rightarrow> Inl e
      | Inr files \<Rightarrow>
          if length files = 0 then Inr None
          else (case buildEmbeds R sourceId 0 files of
                  Inl e \<Rightarrow> Inl e
                | Inr es \<Rightarrow> Inr (Some \<lparr>optEmbeds = es, optFlags = SuppressNotifications\<rparr>)))"

subsection \<open>\<open>suppressEmbeds\<close>\<close>

definition normalizeOptions :: normalizeUrlOptions where
  "normalizeOptions =
     \<lparr>defaultProtocol = ''https'', normalizeProtocol = True, forceHttps = True,
      removeExplicitPort = True, stripHash = True, removeQueryParameters = True\<rparr>"

text \<open>\<open>some\<close> and \<open>every\<close> with a callback that can throw.\<close>

fun someM :: "('a \<Rightarrow> error + bool) \<Rightarrow> 'a list \<Rightarrow> error + bool" where
  "someM p [] = Inr False"
| "someM p (x # xs) =
     (case p x of Inl e \<Rightarrow> Inl e | Inr b \<Rightarrow> if b then Inr True else someM p xs)"

fun everyM :: "('a \<Rightarrow> error + bool) \<Rightarrow> 'a list \<Rightarrow> error + bool" where
  "everyM p [] = Inr True"
| "everyM p (x # xs) =
     (case p x of Inl e \<Rightarrow> Inl e | Inr b \<Rightarrow> if b then everyM p xs else Inr False)"

definition urlMatches :: "runtime \<Rightarrow> jsstring list \<Rightarrow> jsstring option \<Rightarrow> error + bool" where
  "urlMatches R fileUrls eUrl =
     (if \<not> truthy eUrl then Inr False
      else (case normalizeUrl R normalizeOptions (the eUrl) of
              Inl e \<Rightarrow> Inl e
            | Inr normalizedEmbedUrl \<Rightarrow>
                someM (\<lambda>fileUrl.
                         case normalizeUrl R normalizeOptions fileUrl of
                           Inl e \<Rightarrow> Inl e
                         | Inr n \<Rightarrow> Inr (normalizedEmbedUrl = n))
                  fileUrls))"

definition shouldSuppress :: "runtime \<Rightarrow> message \<Rightarrow> jsstring list \<Rightarrow> error + bool" where
  "shouldSuppress R message fileUrls =
     (let embedsUrls = map embedUrl (embeds message)
      in if length embedsUrls > 0 then everyM (urlMatches R fileUrls) embedsUrls else Inr False)"

definition suppressEmbeds ::
  "'w platform \<Rightarrow> runtime \<Rightarrow> message \<Rightarrow> jsstring list \<Rightarrow> 'w state \<Rightarrow> (error + unit) \<times> 'w state" where
  "suppressEmbeds P R message fileUrls s =
     (case shouldSuppress R message fileUrls of
        Inl e \<Rightarrow> (Inl e, s)
      | Inr b \<Rightarrow>
          if suppressEmbedsFlag message = b then (Inr (), s)
          else doSuppress P message b s)"

subsection \<open>\<open>updateEmbedsMessage\<close> and \<open>deleteEmbedsMessage\<close>\<close>

text \<open>
  \<open>new Date(timestamp ?? 0).getTime()\<close>, and \<open>!==\<close> on the results: \<open>NaN\<close> differs from
  every number and from itself.
\<close>

definition getTime :: "runtime \<Rightarrow> jsval option \<Rightarrow> int option" where
  "getTime R timestamp =
     (case timestamp of
        None \<Rightarrow> Some 0
      | Some (JString s) \<Rightarrow> dateParse R s
      | Some (JNumber n) \<Rightarrow> Some n)"

definition numbersDiffer :: "int option \<Rightarrow> int option \<Rightarrow> bool" where
  "numbersDiffer a b = (case (a, b) of (Some x, Some y) \<Rightarrow> x \<noteq> y | _ \<Rightarrow> True)"

text \<open>
  \<open>deepMatch(subset, a)\<close>: every property of the first object is a property of the second
  with an equal value.
\<close>

definition deepMatch :: "embedData \<Rightarrow> embedData \<Rightarrow> bool" where
  "deepMatch sub a = list_all (\<lambda>(key, v). map_of a key = Some v) sub"

definition embedDiffers :: "runtime \<Rightarrow> embedData \<Rightarrow> embedData \<Rightarrow> bool" where
  "embedDiffers R oldEmbedData newEmbedData =
     (numbersDiffer (getTime R (map_of oldEmbedData ''timestamp''))
                    (getTime R (map_of newEmbedData ''timestamp''))
      \<or> \<not> deepMatch (filter (\<lambda>(key, _). key \<noteq> ''timestamp'') newEmbedData) oldEmbedData)"

text \<open>
  \<open>oldEmbeds.some((old, i) => ...)\<close>, where a missing \<open>newEmbeds[i]\<close> counts as a
  difference.
\<close>

fun someDiffers :: "runtime \<Rightarrow> embedData list \<Rightarrow> embedData list \<Rightarrow> bool" where
  "someDiffers R [] news = False"
| "someDiffers R (old # olds) [] = True"
| "someDiffers R (old # olds) (new # news) =
     (embedDiffers R old new \<or> someDiffers R olds news)"

definition embedsDiffer :: "runtime \<Rightarrow> embedData list \<Rightarrow> embedData list \<Rightarrow> bool" where
  "embedsDiffer R oldEmbeds newEmbeds =
     (length oldEmbeds \<noteq> length newEmbeds \<or> someDiffers R oldEmbeds newEmbeds)"


text \<open>
  The two lookups of \<open>Promise.all\<close> only read; the model makes the one of the old message
  first. What follows the update of the embeds message is the suppression of the previews.
\<close>

definition updateShadow ::
  "'w platform \<Rightarrow> runtime \<Rightarrow> message \<Rightarrow> message option \<Rightarrow> messageOptions option \<Rightarrow> 'w state
     \<Rightarrow> ((error + unit) \<times> 'w state) \<times> bool" where
  "updateShadow P R sourceMessage oldEmbedsMessage newEmbedsMessage s =
     (case oldEmbedsMessage of
        None \<Rightarrow>
          (case newEmbedsMessage of
             None \<Rightarrow> ((Inr (), s), False)
           | Some new \<Rightarrow> (doSend P (channelId sourceMessage) new s, True))
      | Some old \<Rightarrow>
          (case newEmbedsMessage of
             None \<Rightarrow> (doDelete P old s, True)
           | Some new \<Rightarrow>
               if embedsDiffer R (embeds old) (optEmbeds new)
               then (doEdit P old new s, True)
               else ((Inr (), s), True)))"


definition deleteEmbedsMessage ::
  "'w platform \<Rightarrow> message \<Rightarrow> 'w state \<Rightarrow> ((error + unit) \<times> 'w state) option" where
  "deleteEmbedsMessage P sourceMessage s =
     (case retrieveOldEmbedsMessage P sourceMessage 0 s of
        None \<Rightarrow> None
      | Some (Inl e, s1) \<Rightarrow> Some (Inl e, s1)
      | Some (Inr None, s1) \<Rightarrow> Some (Inr (), s1)
      | Some (Inr (Some old), s1) \<Rightarrow> Some (doDelete P old s1))"

section \<open>Auxiliary notions for the statements\<close>

text \<open>The files of the ids that resolve, in the order of the ids.\<close>

definition resolvedOf :: "runtime \<Rightarrow> jsstring list \<Rightarrow> driveFile list" where
  "resolvedOf R fileIds =
     concat (map (\<lambda>fid. case filesGet R fid of Inr f \<Rightarrow> [f] | Inl e \<Rightarrow> []) fileIds)"

text \<open>\<open>normalizeUrl\<close> returns on this URL.\<close>

definition normalizes :: "runtime \<Rightarrow> jsstring \<Rightarrow> bool" where
  "normalizes R u = (\<exists>n. normalizeUrl R normalizeOptions u = Inr n)"

text \<open>
  The requests of a lookup that makes \<open>k\<close> retries: a history query, and before each
  further one a wait of one second.
\<close>

definition attempts :: "message \<Rightarrow> nat \<Rightarrow> effect list" where
  "attempts message k =
     concat (replicate k [Fetch (channelId message) (messageId message) 10, Sleep 1000])
     @ [Fetch (channelId message) (messageId message) 10]"





section \<open>A channel in which only the bot acts\<close>

text \<open>
  An instance of the platform, seen from one source message: the state holds the messages of
  the channel that come after the source message, oldest first, and the suppression flag of
  the source message. A history query after the source message returns the messages that
  follow it most closely, newest first. A message that is sent is appended; the platform
  stores its embeds with the timestamp in a rendering of its own and with properties of its
  own added.
\<close>

record channelWorld =
  following :: "message list"
  sourceSuppressed :: bool
  clock :: int
  sent :: nat

definition storedEmbed :: "(jsstring \<Rightarrow> jsstring) \<Rightarrow> embedData \<Rightarrow> embedData" where
  "storedEmbed render e =
     map (\<lambda>(key, v). if key = ''timestamp''
                      then (key, (case v of JString s \<Rightarrow> JString (render s) | _ \<Rightarrow> v))
                      else (key, v)) e
     @ [(''type'', JString (js ''rich'')), (''content_scan_version'', JNumber 0)]"

definition channelPlatform ::
  "jsstring \<Rightarrow> (jsstring \<Rightarrow> jsstring) \<Rightarrow> (nat \<Rightarrow> jsstring) \<Rightarrow> channelWorld platform" where
  "channelPlatform botUserId render newId =
     \<lparr>fetchMessages = (\<lambda>channel after limit w. (Inr (rev (take limit (following w))), w)),
      sleep = (\<lambda>ms w. w\<lparr>clock := clock w + int ms\<rparr>),
      channelSend = (\<lambda>channel opts w.
        (Inr (),
         w\<lparr>following := following w @
              [\<lparr>messageId = newId (sent w), channelId = channel, authorId = botUserId,
                clientUserId = botUserId, createdTimestamp = clock w, content = [],
                embeds = map (storedEmbed render) (optEmbeds opts), suppressEmbedsFlag = False\<rparr>],
            clock := clock w + 1, sent := sent w + 1\<rparr>)),
      messageEdit = (\<lambda>m opts w.
        (Inr (),
         w\<lparr>following :=
              map (\<lambda>x. if messageId x = messageId m
                        then x\<lparr>embeds := map (storedEmbed render) (optEmbeds opts)\<rparr> else x)
                (following w)\<rparr>)),
      messageDelete = (\<lambda>m w.
        (Inr (), w\<lparr>following := filter (\<lambda>x. messageId x \<noteq> messageId m) (following w)\<rparr>)),
      messageSuppressEmbeds = (\<lambda>m b w. (Inr (), w\<lparr>sourceSuppressed := b\<rparr>))\<rparr>"

section \<open>A small file store and channel\<close>

definition fileA :: driveFile where
  "fileA = \<lparr>name = Some (js ''notes.txt''),
            webViewLink = Some (js ''https://drive.google.com/file/d/A/view''),
            mimeType = Some (js ''text/plain''),
            modifiedTime = Some (js ''2024-01-01T00:00:00Z'')\<rparr>"

definition fileB :: driveFile where
  "fileB = \<lparr>name = Some (js ''plan''),
            webViewLink = Some (js ''https://docs.google.com/document/d/B/edit''),
            mimeType = Some (js ''application/vnd.google-apps.document''),
            modifiedTime = Some (js ''2024-01-01T00:00:00Z'')\<rparr>"

text \<open>
  The store knows the ids \<open>A\<close> and \<open>B\<close>, answers not found for \<open>C\<close> and fails otherwise;
  the clock reads two renderings of one instant; a URL is normalized by cutting its query.
\<close>

definition exampleRuntime :: runtime where
  "exampleRuntime =
     \<lparr>filesGet = (\<lambda>fid. if fid = js ''A'' then Inr fileA
                         else if fid = js ''B'' then Inr fileB
                         else if fid = js ''C'' then Inl (GaxiosError (Some [''notFound'']))
                         else Inl (OtherError ''ECONNRESET'')),
      dateParse = (\<lambda>s. if s = js ''2024-01-01T00:00:00Z'' \<or> s = js ''2024-01-01T00:00:00.000Z''
                           \<or> s = js ''2024-01-01T00:00:00+00:00''
                        then Some 1704067200000 else None),
      toISOString = (\<lambda>t. js ''2024-01-01T00:00:00.000Z''),
      builderAccepts = (\<lambda>data. True),
      normalizeUrl = (\<lambda>opts u. Inr (takeWhile (\<lambda>c. c \<noteq> 0x3F) u))\<rparr>"

definition exampleSource :: message where
  "exampleSource =
     \<lparr>messageId = js ''1001'', channelId = js ''7'', authorId = js ''5'', clientUserId = js ''42'',
      createdTimestamp = 0, content = js ''see https://drive.google.com/file/d/A/view?usp=sharing'',
      embeds = [[(''url'', JString (js ''https://drive.google.com/file/d/A/view''))]],
      suppressEmbedsFlag = False\<rparr>"

definition exampleOther :: message where
  "exampleOther =
     \<lparr>messageId = js ''1002'', channelId = js ''7'', authorId = js ''42'', clientUserId = js ''42'',
      createdTimestamp = 10, content = [],
      embeds = [[(''title'', JString (js ''notes.txt''))]], suppressEmbedsFlag = False\<rparr>"

definition exampleShadow :: message where
  "exampleShadow =
     \<lparr>messageId = js ''1003'', channelId = js ''7'', authorId = js ''42'', clientUserId = js ''42'',
      createdTimestamp = 20, content = [],
      embeds = [[(''type'', JString (js ''rich'')),
                 (''title'', JString (appendInvisible (js ''notes.txt'') (js ''1001''))),
                 (''url'', JString (js ''https://drive.google.com/file/d/A/view'')),
                 (''color'', JNumber 0xe3e5e8),
                 (''timestamp'', JString (js ''2024-01-01T00:00:00+00:00'')),
                 (''content_scan_version'', JNumber 0)]],
      suppressEmbedsFlag = False\<rparr>"

definition exampleReply :: message where
  "exampleReply =
     \<lparr>messageId = js ''1004'', channelId = js ''7'', authorId = js ''5'', clientUserId = js ''42'',
      createdTimestamp = 30, content = js ''thanks'', embeds = [], suppressEmbedsFlag = False\<rparr>"

definition examplePlatform :: "channelWorld platform" where
  "examplePlatform = channelPlatform (js ''42'') (\<lambda>s. js ''2024-01-01T00:00:00+00:00'')
                       (\<lambda>n. js ''2000'' @ replicate n 0x30)"

definition exampleState :: "channelWorld state" where
  "exampleState =
     \<lparr>world = \<lparr>following = [exampleOther, exampleShadow, exampleReply],
               sourceSuppressed = False, clock = 40, sent = 0\<rparr>,
      trace = []\<rparr>"

definition exampleNew :: "embedData list" where
  "exampleNew =
     [[(''title'', JString (appendInvisible (js ''notes.txt'') (js ''1001''))),
       (''url'', JString (js ''https://drive.google.com/file/d/A/view'')),
       (''color'', JNumber 0xe3e5e8),
       (''timestamp'', JString (js ''2024-01-01T00:00:00.000Z''))]]"

definition exampleUrl :: jsstring where
  "exampleUrl = js ''https://drive.google.com/file/d/A/view?usp=sharing''"

section \<open>The strings of a regular expression, and the links of the specification\<close>

text \<open>The strings that an expression matches, whatever the order in which it tries them.\<close>

inductive_set kleene :: "jsstring set \<Rightarrow> jsstring set" for A :: "jsstring set" where
  kleene_Nil: "[] \<in> kleene A"
| kleene_app: "a \<in> A \<Longrightarrow> w \<in> kleene A \<Longrightarrow> a @ w \<in> kleene A"

fun lang :: "regex \<Rightarrow> jsstring set" where
  "lang (Lit w) = {w}"
| "lang (Class p) = {[u] | u. p u}"
| "lang (Seq a b) = {u @ v | u v. u \<in> lang a \<and> v \<in> lang b}"
| "lang (Alt a b) = lang a \<union> lang b"
| "lang (Opt a) = insert [] (lang a)"
| "lang (Star a) = kleene (lang a)"
| "lang (Group a) = lang a"

fun groupFree :: "regex \<Rightarrow> bool" where
  "groupFree (Lit w) = True"
| "groupFree (Class p) = True"
| "groupFree (Seq a b) = (groupFree a \<and> groupFree b)"
| "groupFree (Alt a b) = (groupFree a \<and> groupFree b)"
| "groupFree (Opt a) = groupFree a"
| "groupFree (Star a) = groupFree a"
| "groupFree (Group a) = False"

text \<open>
  A link as the specification describes it: a sharing URL of the drive or docs host whose path,
  after at least one further character, has a segment \<open>d\<close>, \<open>e\<close> or \<open>folders\<close> followed by
  an identifier of at least 25 characters that are letters, digits, underscores or hyphens;
  what follows the identifier is nothing, or a slash and characters of a URL that do not end
  in punctuation.
\<close>

definition isDriveLink :: "jsstring \<Rightarrow> jsstring \<Rightarrow> bool" where
  "isDriveLink link ident =
     (\<exists>scheme host path segment rest.
        link = scheme @ js ''://'' @ host @ js ''.google.com/'' @ path
                 @ js ''/'' @ segment @ js ''/'' @ ident @ rest
        \<and> scheme \<in> {js ''http'', js ''https''}
        \<and> host \<in> {js ''drive'', js ''docs''}
        \<and> path \<noteq> [] \<and> list_all notSeparator path
        \<and> segment \<in> {js ''d'', js ''e'', js ''folders''}
        \<and> 25 \<le> length ident \<and> list_all idChar ident
        \<and> (rest = []
             \<or> (\<exists>mid last. rest = js ''/'' @ mid @ [last]
                    \<and> list_all notSeparator mid \<and> notTrailing last)))"

text \<open>Some link starts at index \<open>p\<close> of the text.\<close>

definition linkStartsAt :: "jsstring \<Rightarrow> nat \<Rightarrow> bool" where
  "linkStartsAt text p = (\<exists>link ident. isDriveLink link ident \<and> prefix link (drop p text))"

definition exampleText :: jsstring where
  "exampleText = js ''see https://drive.google.com/file/d/1aB2cD3eF4gH5iJ6kL7mN8oP9q/view and https://docs.google.com/document/d/123456789012345678901234/edit then https://drive.google.com/drive/folders/0B_abcdefghijklmnopqrstuvwx-yz?usp=sharing''"

definition exampleTwice :: jsstring where
  "exampleTwice = js ''https://drive.google.com/file/d/1aB2cD3eF4gH5iJ6kL7mN8oP9q/view https://drive.google.com/file/d/1aB2cD3eF4gH5iJ6kL7mN8oP9q/view''"

text \<open>
  The parts of a link: the origin up to the first slash of the path, the path before the
  segment, the segment between its slashes, the identifier, and what follows the identifier.
\<close>

definition linkParts :: "jsstring \<Rightarrow> jsstring \<Rightarrow> jsstring \<Rightarrow> jsstring \<Rightarrow> jsstring \<Rightarrow> bool" where
  "linkParts origin path segment ident rest =
     ((\<exists>scheme host. origin = scheme @ js ''://'' @ host @ js ''.google.com/''
          \<and> scheme \<in> {js ''http'', js ''https''} \<and> host \<in> {js ''drive'', js ''docs''})
      \<and> path \<noteq> [] \<and> list_all notSeparator path
      \<and> (\<exists>name. segment = js ''/'' @ name @ js ''/'' \<and> name \<in> {js ''d'', js ''e'', js ''folders''})
      \<and> 25 \<le> length ident \<and> list_all idChar ident
      \<and> (rest = []
           \<or> (\<exists>mid last. rest = js ''/'' @ mid @ [last]
                  \<and> list_all notSeparator mid \<and> notTrailing last)))"

text \<open>
  Of the links that start a text, the one that is taken: the one with the longest path before
  the segment, of these the one with the longest identifier, and of these the longest.
\<close>

definition firstChoice :: "jsstring \<Rightarrow> jsstring \<Rightarrow> jsstring \<Rightarrow> bool" where
  "firstChoice text link ident =
     (\<exists>origin path segment rest.
        link = origin @ path @ segment @ ident @ rest \<and> prefix link text
        \<and> linkParts origin path segment ident rest
        \<and> (\<forall>origin' path' segment' ident' rest'.
              linkParts origin' path' segment' ident' rest'
              \<and> prefix (origin' @ path' @ segment' @ ident' @ rest') text
              \<longrightarrow> length path' < length path
                  \<or> (length path' = length path
                      \<and> (length ident' < length ident
                          \<or> (length ident' = length ident \<and> length rest' \<le> length rest)))))"

text \<open>Two links with a comma between them.\<close>

definition exampleJoined :: jsstring where
  "exampleJoined = js ''https://drive.google.com/file/d/1aB2cD3eF4gH5iJ6kL7mN8oP9q/view,https://docs.google.com/document/d/0B_abcdefghijklmnopqrstuvwx-yz/edit''"

text \<open>
  The order in which the matcher lists the ends of a repetition: a state with less input left,
  that is after more iterations, comes first.
\<close>

definition lessLeft :: "mstate \<Rightarrow> mstate \<Rightarrow> bool" where
  "lessLeft a b = (length (fst a) < length (fst b))"

section \<open>Repeated synchronization of one source message\<close>






text \<open>
  A source message with one link, a store with one file, and the same store with a file whose
  name ends in U+2060, one of the sixteen invisible characters.
\<close>

definition linkSource :: message where
  "linkSource =
     \<lparr>messageId = js ''1001'', channelId = js ''7'', authorId = js ''5'', clientUserId = js ''42'',
      createdTimestamp = 0,
      content = js ''https://drive.google.com/file/d/1aB2cD3eF4gH5iJ6kL7mN8oP9q/view'',
      embeds = [], suppressEmbedsFlag = False\<rparr>"





section \<open>Embeds that differ in an instant\<close>

text \<open>
  The example runtime, reading a second instant; an embeds message with the embed of the
  example in the rendering of the platform and without properties of the platform; and the new
  embed of the example one day later.
\<close>

definition twoDayRuntime :: runtime where
  "twoDayRuntime =
     exampleRuntime\<lparr>dateParse :=
       (\<lambda>s. if s = js ''2024-01-02T00:00:00.000Z'' then Some 1704153600000
             else dateParse exampleRuntime s)\<rparr>"

definition exampleBare :: message where
  "exampleBare =
     exampleShadow\<lparr>embeds :=
       [[(''title'', JString (appendInvisible (js ''notes.txt'') (js ''1001''))),
         (''url'', JString (js ''https://drive.google.com/file/d/A/view'')),
         (''color'', JNumber 0xe3e5e8),
         (''timestamp'', JString (js ''2024-01-01T00:00:00+00:00''))]]\<rparr>"

definition exampleLater :: "embedData list" where
  "exampleLater =
     [[(''title'', JString (appendInvisible (js ''notes.txt'') (js ''1001''))),
       (''url'', JString (js ''https://drive.google.com/file/d/A/view'')),
       (''color'', JNumber 0xe3e5e8),
       (''timestamp'', JString (js ''2024-01-02T00:00:00.000Z''))]]"

definition exampleRenamed :: "embedData list" where
  "exampleRenamed =
     [[(''title'', JString (appendInvisible (js ''notes.md'') (js ''1001''))),
       (''url'', JString (js ''https://drive.google.com/file/d/A/view'')),
       (''color'', JNumber 0xe3e5e8),
       (''timestamp'', JString (js ''2024-01-01T00:00:00.000Z''))]]"

definition platformExtras :: "embedData list" where
  "platformExtras = [[(''type'', JString (js ''rich'')), (''content_scan_version'', JNumber 0)]]"


section \<open>Properties of the codec\<close>

subsection \<open>The table of invisible characters\<close>

lemma indexOfChar_upt:
  "indexOfChar (map (\<lambda>i. a + i) [k..<n]) c =
     (if a + k \<le> c \<and> c < a + n then Some (c - (a + k)) else None)"
proof (induction "n - k" arbitrary: k)
  case 0
  then show ?case by simp
next
  case (Suc d)
  then have kn: "k < n" and d: "d = n - Suc k" by simp_all
  have step: "[k..<n] = k # [Suc k..<n]" using kn by (simp add: upt_rec)
  show ?case
    using Suc.hyps(1)[OF d] kn by (auto simp: step)
qed

lemma indexOfChar_invisibleChars:
  "indexOfChar invisibleChars c =
     (if 0x2060 \<le> c \<and> c \<le> 0x206F then Some (c - 0x2060) else None)"
  unfolding invisibleChars_def using indexOfChar_upt[of "0x2060" 0 16 c] by auto

lemma set_invisibleChars: "c \<in> set invisibleChars \<longleftrightarrow> 0x2060 \<le> c \<and> c \<le> 0x206F"
  by (auto simp: invisibleChars_def)

lemma isInvisible_iff: "isInvisible u \<longleftrightarrow> 0x2060 \<le> unat u \<and> unat u \<le> 0x206F"
  by (simp add: isInvisible_def set_invisibleChars)

lemma nth_invisibleChars: "i < 16 \<Longrightarrow> invisibleChars ! i = 0x2060 + i"
  by (simp add: invisibleChars_def)

subsection \<open>Nibbles\<close>

lemma unat_high_nibble: "unat (drop_bit 4 (b::byte)) = unat b div 16"
  unfolding unat_drop_bit_eq by (simp add: drop_bit_eq_div)

lemma unat_low_nibble: "unat ((b::byte) AND 0xf) = unat b mod 16"
proof -
  have "(0xf :: byte) = mask 4" by (simp add: mask_eq_exp_minus_1)
  then have "b AND 0xf = take_bit 4 b" by (simp add: take_bit_eq_mask)
  then show ?thesis by (simp add: take_bit_eq_mod unat_mod)
qed

lemma join_nibbles:
  assumes y: "y < 16"
  shows "push_bit 4 (x::nat) OR y = x * 16 + y"
proof -
  have "push_bit 4 x + y = push_bit 4 x OR y"
  proof (rule disjunctive_add_eq_or, rule bit_eqI)
    fix n
    have "\<not> bit y n" if "4 \<le> n"
    proof -
      have "(2::nat) ^ 4 \<le> 2 ^ n" using that by (intro power_increasing) simp_all
      then have "y < 2 ^ n" using y by simp
      then show ?thesis by (simp add: bit_iff_odd)
    qed
    then have "bit y n \<Longrightarrow> n < 4" by (meson not_less)
    then show "bit (push_bit 4 x AND y) n = bit (0::nat) n"
      by (auto simp: bit_simps)
  qed
  then show ?thesis by (simp add: push_bit_eq_mult)
qed

lemma nibbles_of_byte:
  fixes b :: byte
  shows "word_of_nat (push_bit 4 (unat (drop_bit 4 b)) OR unat (b AND 0xf)) = b"
  by (simp add: unat_high_nibble unat_low_nibble join_nibbles)

lemma nibblesOf_less: "\<forall>n\<in>set (nibblesOf bytes). n < 16"
proof -
  have "unat b div 16 < 16" for b :: byte
    using unsigned_less[of b, where ?'a = nat] by (simp add: less_mult_imp_div_less)
  then show ?thesis by (auto simp: nibblesOf_def unat_high_nibble unat_low_nibble)
qed

lemma pairNibbles_nibblesOf: "pairNibbles (nibblesOf bytes) = bytes"
  by (induction bytes) (simp_all add: nibblesOf_def nibbles_of_byte)

lemma toNibbles_invisible:
  "\<forall>n\<in>set ns. n < 16 \<Longrightarrow> toNibbles (map (\<lambda>i. 0x2060 + i) ns) = Inr ns"
  by (induction ns) (simp_all add: indexOfChar_invisibleChars)

subsection \<open>UTF-8 decoding inverts UTF-8 encoding\<close>

lemma unat_byte: "n < 256 \<Longrightarrow> unat (word_of_nat n :: byte) = n"
  by (simp add: unat_of_nat)

lemma mod32_lead: "q < 32 \<Longrightarrow> (192 + q) mod 32 = (q::nat)"
  using mod_mult_self4[of 32 6 q] by simp

lemma mod16_lead: "q < 16 \<Longrightarrow> (224 + q) mod 16 = (q::nat)"
  using mod_mult_self4[of 16 14 q] by simp

lemma mod8_lead: "q < 8 \<Longrightarrow> (240 + q) mod 8 = (q::nat)"
  using mod_mult_self4[of 8 30 q] by simp

lemma mod64_cont: "(128 + q mod 64) mod 64 = (q::nat) mod 64"
  using mod_mult_self4[of 64 2 "q mod 64"] by simp

lemma cont_range:
  "128 \<le> 128 + (q::nat) mod 64 \<and> 128 + q mod 64 \<le> 191 \<and> 128 + q mod 64 < 256"
proof -
  have "q mod 64 < 64" by simp
  then show ?thesis by linarith
qed

lemma div_4096: "(cp::nat) div 4096 = cp div 64 div 64"
  by (simp add: div_mult2_eq)

lemma div_262144: "(cp::nat) div 262144 = cp div 4096 div 64"
  by (simp add: div_mult2_eq)

lemma bytes_needed_initial: "bytes_needed utf8_initial = 0"
  by (simp add: utf8_initial_def)

lemma step_lead1: "b \<le> 0x7F \<Longrightarrow> utf8_step utf8_initial b = ([b], utf8_initial)"
  by (simp add: utf8_step_def utf8_lead_def utf8_initial_def)

lemma step_lead2:
  "0xC2 \<le> b \<Longrightarrow> b \<le> 0xDF \<Longrightarrow>
   utf8_step utf8_initial b = ([], utf8_initial\<lparr>bytes_needed := 1, code_point := b mod 0x20\<rparr>)"
  by (simp add: utf8_step_def utf8_lead_def utf8_initial_def)

lemma step_lead3:
  "0xE0 \<le> b \<Longrightarrow> b \<le> 0xEF \<Longrightarrow>
   utf8_step utf8_initial b =
     ([], utf8_initial\<lparr>bytes_needed := 2, code_point := b mod 0x10,
                           lower_boundary := (if b = 0xE0 then 0xA0 else 0x80),
                           upper_boundary := (if b = 0xED then 0x9F else 0xBF)\<rparr>)"
  by (simp add: utf8_step_def utf8_lead_def utf8_initial_def)

lemma step_lead4:
  "0xF0 \<le> b \<Longrightarrow> b \<le> 0xF4 \<Longrightarrow>
   utf8_step utf8_initial b =
     ([], utf8_initial\<lparr>bytes_needed := 3, code_point := b mod 0x8,
                           lower_boundary := (if b = 0xF0 then 0x90 else 0x80),
                           upper_boundary := (if b = 0xF4 then 0x8F else 0xBF)\<rparr>)"
  by (simp add: utf8_step_def utf8_lead_def utf8_initial_def)

lemma step_cont_more:
  "bytes_needed st \<noteq> 0 \<Longrightarrow> lower_boundary st \<le> b \<Longrightarrow> b \<le> upper_boundary st \<Longrightarrow>
   bytes_seen st + 1 \<noteq> bytes_needed st \<Longrightarrow>
   utf8_step st b =
     ([], st\<lparr>code_point := code_point st * 0x40 + b mod 0x40, bytes_seen := bytes_seen st + 1,
               lower_boundary := 0x80, upper_boundary := 0xBF\<rparr>)"
  by (simp add: utf8_step_def Let_def)

lemma step_cont_last:
  "bytes_needed st \<noteq> 0 \<Longrightarrow> lower_boundary st \<le> b \<Longrightarrow> b \<le> upper_boundary st \<Longrightarrow>
   bytes_seen st + 1 = bytes_needed st \<Longrightarrow>
   utf8_step st b = ([code_point st * 0x40 + b mod 0x40], utf8_initial)"
  by (simp add: utf8_step_def Let_def)

lemma utf8_run_1byte:
  assumes "cp \<le> 0x7F"
  shows "utf8_run utf8_initial (utf8_encode_cp cp @ rest) = cp # utf8_run utf8_initial rest"
  using assms by (simp add: utf8_encode_cp_def unat_byte step_lead1)

lemma utf8_run_2bytes:
  assumes "0x7F < cp" "cp \<le> 0x7FF"
  shows "utf8_run utf8_initial (utf8_encode_cp cp @ rest) = cp # utf8_run utf8_initial rest"
proof -
  define q where "q = cp div 0x40"
  define b0 where "b0 = 0xC0 + q"
  define b1 where "b1 = 0x80 + cp mod 0x40"
  have q: "2 \<le> q" "q < 32"
    using assms by (simp_all add: q_def Suc_le_eq less_mult_imp_div_less le_div_geq)
  have b0: "0xC2 \<le> b0" "b0 \<le> 0xDF" "b0 < 256" "b0 mod 0x20 = q"
    using q by (simp_all add: b0_def mod32_lead)
  have b1: "0x80 \<le> b1" "b1 \<le> 0xBF" "b1 < 256" "b1 mod 0x40 = cp mod 0x40"
    using cont_range[of cp] mod64_cont[of cp] by (simp_all add: b1_def)
  have enc: "utf8_encode_cp cp = [of_nat b0, of_nat b1]"
    using assms by (simp add: utf8_encode_cp_def b0_def b1_def q_def)
  define st0 where "st0 = utf8_initial\<lparr>bytes_needed := 1, code_point := q\<rparr>"
  have s0: "utf8_step utf8_initial b0 = ([], st0)"
    using step_lead2[OF b0(1,2)] b0(4) by (simp add: st0_def)
  have s1: "utf8_step st0 b1 = ([cp], utf8_initial)"
    using step_cont_last[of st0 b1] b1
    by (simp add: st0_def utf8_initial_def q_def)
  show ?thesis
    by (simp add: enc unat_byte b0 b1 s0 s1)
qed

lemma utf8_run_3bytes:
  assumes "0x7FF < cp" "cp \<le> 0xFFFF" "\<not> (0xD800 \<le> cp \<and> cp \<le> 0xDFFF)"
  shows "utf8_run utf8_initial (utf8_encode_cp cp @ rest) = cp # utf8_run utf8_initial rest"
proof -
  define x where "x = cp div 0x40"
  define q where "q = cp div 0x1000"
  define b0 where "b0 = 0xE0 + q"
  define b1 where "b1 = 0x80 + x mod 0x40"
  define b2 where "b2 = 0x80 + cp mod 0x40"
  define st0 where "st0 = utf8_initial\<lparr>bytes_needed := 2, code_point := q,
                           lower_boundary := (if b0 = 0xE0 then 0xA0 else 0x80),
                           upper_boundary := (if b0 = 0xED then 0x9F else 0xBF)\<rparr>"
  define st1 where "st1 = st0\<lparr>code_point := x, bytes_seen := 1,
               lower_boundary := 0x80, upper_boundary := 0xBF\<rparr>"
  have qx: "q = x div 64" by (simp add: q_def x_def div_4096)
  have x: "32 \<le> x" "x < 1024"
    using assms by (simp_all add: x_def Suc_le_eq less_mult_imp_div_less le_div_geq)
  have q: "q < 16" using x by (simp add: qx less_mult_imp_div_less)
  have b0: "0xE0 \<le> b0" "b0 \<le> 0xEF" "b0 < 256" "b0 mod 0x10 = q"
    using q by (simp_all add: b0_def mod16_lead)
  have b1: "0x80 \<le> b1" "b1 \<le> 0xBF" "b1 < 256" "b1 mod 0x40 = x mod 0x40"
    using cont_range[of x] mod64_cont[of x] by (simp_all add: b1_def)
  have b2: "0x80 \<le> b2" "b2 \<le> 0xBF" "b2 < 256" "b2 mod 0x40 = cp mod 0x40"
    using cont_range[of cp] mod64_cont[of cp] by (simp_all add: b2_def)
  have lo: "lower_boundary st0 \<le> b1"
  proof (cases "b0 = 0xE0")
    case True
    then have "q = 0" by (simp add: b0_def)
    then have "x < 64" using qx by (simp add: div_eq_0_iff)
    then have "x mod 64 = x" by simp
    then show ?thesis using True x by (simp add: st0_def b1_def utf8_initial_def)
  next
    case False
    then show ?thesis using b1 by (simp add: st0_def utf8_initial_def)
  qed
  have hi: "b1 \<le> upper_boundary st0"
  proof (cases "b0 = 0xED")
    case True
    then have q13: "q = 13" by (simp add: b0_def)
    have "cp < 0xD800"
    proof (rule ccontr)
      assume "\<not> cp < 0xD800"
      then have "0xE000 \<le> cp" using assms(3) by simp
      then have "14 \<le> cp div 0x1000" by (simp add: Suc_le_eq less_mult_imp_div_less le_div_geq)
      then show False using q13 by (simp add: q_def)
    qed
    then have x1: "x < 864" by (simp add: x_def less_mult_imp_div_less)
    have x2: "832 \<le> x"
    proof -
      have "x div 64 * 64 + x mod 64 = x" by simp
      then show ?thesis using q13 qx by linarith
    qed
    define r where "r = x - 832"
    have r: "x = 832 + r" "r < 32" using x1 x2 by (simp_all add: r_def)
    have "x mod 64 = r" using mod_mult_self4[of 64 13 r] r by simp
    then show ?thesis using True r by (simp add: st0_def b1_def utf8_initial_def)
  next
    case False
    then show ?thesis using b1 by (simp add: st0_def utf8_initial_def)
  qed
  have enc: "utf8_encode_cp cp = [of_nat b0, of_nat b1, of_nat b2]"
    using assms by (simp add: utf8_encode_cp_def b0_def b1_def b2_def q_def x_def)
  have s0: "utf8_step utf8_initial b0 = ([], st0)"
    using step_lead3[OF b0(1,2)] b0(4) by (simp add: st0_def)
  have acc1: "q * 64 + b1 mod 64 = x" using b1(4) qx by simp
  have s1: "utf8_step st0 b1 = ([], st1)"
    using step_cont_more[of st0 b1] lo hi acc1
    by (simp add: st0_def st1_def utf8_initial_def)
  have acc2: "x * 64 + b2 mod 64 = cp" using b2(4) by (simp add: x_def)
  have s2: "utf8_step st1 b2 = ([cp], utf8_initial)"
    using step_cont_last[of st1 b2] b2 acc2
    by (simp add: st0_def st1_def utf8_initial_def)
  show ?thesis
    by (simp add: enc unat_byte b0 b1 b2 s0 s1 s2)
qed


lemma utf8_run_4bytes:
  assumes "0xFFFF < cp" "cp < 0x110000"
  shows "utf8_run utf8_initial (utf8_encode_cp cp @ rest) = cp # utf8_run utf8_initial rest"
proof -
  define x where "x = cp div 0x40"
  define y where "y = cp div 0x1000"
  define q where "q = cp div 0x40000"
  define b0 where "b0 = 0xF0 + q"
  define b1 where "b1 = 0x80 + y mod 0x40"
  define b2 where "b2 = 0x80 + x mod 0x40"
  define b3 where "b3 = 0x80 + cp mod 0x40"
  define st0 where "st0 = utf8_initial\<lparr>bytes_needed := 3, code_point := q,
                           lower_boundary := (if b0 = 0xF0 then 0x90 else 0x80),
                           upper_boundary := (if b0 = 0xF4 then 0x8F else 0xBF)\<rparr>"
  define st1 where "st1 = st0\<lparr>code_point := y, bytes_seen := 1,
               lower_boundary := 0x80, upper_boundary := 0xBF\<rparr>"
  define st2 where "st2 = st1\<lparr>code_point := x, bytes_seen := 2,
               lower_boundary := 0x80, upper_boundary := 0xBF\<rparr>"
  have yx: "y = x div 64" by (simp add: y_def x_def div_4096)
  have qy: "q = y div 64" by (simp add: q_def y_def div_262144)
  have y: "16 \<le> y" "y < 272"
    using assms by (simp_all add: y_def Suc_le_eq less_mult_imp_div_less le_div_geq)
  have q: "q < 5" using y by (simp add: qy less_mult_imp_div_less)
  have b0: "0xF0 \<le> b0" "b0 \<le> 0xF4" "b0 < 256" "b0 mod 0x8 = q"
    using q by (simp_all add: b0_def mod8_lead)
  have b1: "0x80 \<le> b1" "b1 \<le> 0xBF" "b1 < 256" "b1 mod 0x40 = y mod 0x40"
    using cont_range[of y] mod64_cont[of y] by (simp_all add: b1_def)
  have b2: "0x80 \<le> b2" "b2 \<le> 0xBF" "b2 < 256" "b2 mod 0x40 = x mod 0x40"
    using cont_range[of x] mod64_cont[of x] by (simp_all add: b2_def)
  have b3: "0x80 \<le> b3" "b3 \<le> 0xBF" "b3 < 256" "b3 mod 0x40 = cp mod 0x40"
    using cont_range[of cp] mod64_cont[of cp] by (simp_all add: b3_def)
  have lo: "lower_boundary st0 \<le> b1"
  proof (cases "b0 = 0xF0")
    case True
    then have "q = 0" by (simp add: b0_def)
    then have "y < 64" using qy by (simp add: div_eq_0_iff)
    then have "y mod 64 = y" by simp
    then show ?thesis using True y by (simp add: st0_def b1_def utf8_initial_def)
  next
    case False
    then show ?thesis using b1 by (simp add: st0_def utf8_initial_def)
  qed
  have hi: "b1 \<le> upper_boundary st0"
  proof (cases "b0 = 0xF4")
    case True
    then have q4: "q = 4" by (simp add: b0_def)
    have y2: "256 \<le> y"
    proof -
      have "y div 64 * 64 + y mod 64 = y" by simp
      then show ?thesis using q4 qy by linarith
    qed
    define r where "r = y - 256"
    have r: "y = 256 + r" "r < 16" using y y2 by (simp_all add: r_def)
    have "y mod 64 = r" using mod_mult_self4[of 64 4 r] r by simp
    then show ?thesis using True r by (simp add: st0_def b1_def utf8_initial_def)
  next
    case False
    then show ?thesis using b1 by (simp add: st0_def utf8_initial_def)
  qed
  have enc: "utf8_encode_cp cp = [of_nat b0, of_nat b1, of_nat b2, of_nat b3]"
    using assms by (simp add: utf8_encode_cp_def b0_def b1_def b2_def b3_def q_def x_def y_def)
  have s0: "utf8_step utf8_initial b0 = ([], st0)"
    using step_lead4[OF b0(1,2)] b0(4) by (simp add: st0_def)
  have acc1: "q * 64 + b1 mod 64 = y" using b1(4) qy by simp
  have s1: "utf8_step st0 b1 = ([], st1)"
    using step_cont_more[of st0 b1] lo hi acc1
    by (simp add: st0_def st1_def utf8_initial_def)
  have acc2: "y * 64 + b2 mod 64 = x" using b2(4) yx by simp
  have s2: "utf8_step st1 b2 = ([], st2)"
    using step_cont_more[of st1 b2] b2 acc2
    by (simp add: st0_def st1_def st2_def utf8_initial_def)
  have acc3: "x * 64 + b3 mod 64 = cp" using b3(4) by (simp add: x_def)
  have s3: "utf8_step st2 b3 = ([cp], utf8_initial)"
    using step_cont_last[of st2 b3] b3 acc3
    by (simp add: st0_def st1_def st2_def utf8_initial_def)
  show ?thesis
    by (simp add: enc unat_byte b0 b1 b2 b3 s0 s1 s2 s3)
qed

lemma utf8_run_encode_cp:
  assumes "isScalarValue cp"
  shows "utf8_run utf8_initial (utf8_encode_cp cp @ rest) = cp # utf8_run utf8_initial rest"
proof -
  consider "cp \<le> 0x7F" | "0x7F < cp" "cp \<le> 0x7FF" | "0x7FF < cp" "cp \<le> 0xFFFF" | "0xFFFF < cp"
    by linarith
  then show ?thesis
  proof cases
    case 1 then show ?thesis by (rule utf8_run_1byte)
  next
    case 2 then show ?thesis by (rule utf8_run_2bytes)
  next
    case 3 then show ?thesis using assms by (intro utf8_run_3bytes) (simp_all add: isScalarValue_def)
  next
    case 4 then show ?thesis using assms by (intro utf8_run_4bytes) (simp_all add: isScalarValue_def)
  qed
qed

lemma utf8_roundtrip:
  "\<forall>cp\<in>set cps. isScalarValue cp \<Longrightarrow>
   utf8_run utf8_initial (concat (map utf8_encode_cp cps)) = cps"
  by (induction cps) (simp_all add: utf8_run_encode_cp bytes_needed_initial)


subsection \<open>UTF-16\<close>

lemma unat_code_unit: "unat (u :: code_unit) < 65536"
  using unsigned_less[of u, where ?'a = nat] by simp

lemma surrogatePair_range:
  assumes "isLeadSurrogate u" "isTrailSurrogate v"
  shows "0x10000 \<le> surrogatePair u v" "surrogatePair u v < 0x110000"
proof -
  have "unat u - 0xD800 \<le> 0x3FF" using assms(1) unfolding isLeadSurrogate_def by linarith
  then have "(unat u - 0xD800) * 0x400 \<le> 0x3FF * 0x400" by (rule mult_le_mono1)
  moreover have "unat v - 0xDC00 \<le> 0x3FF" using assms(2) unfolding isTrailSurrogate_def by linarith
  ultimately show "surrogatePair u v < 0x110000" by (simp add: surrogatePair_def)
  show "0x10000 \<le> surrogatePair u v" by (simp add: surrogatePair_def)
qed

lemma isScalarValue_surrogatePair:
  "isLeadSurrogate u \<Longrightarrow> isTrailSurrogate v \<Longrightarrow> isScalarValue (surrogatePair u v)"
  using surrogatePair_range[of u v] by (simp add: isScalarValue_def)

lemma isScalarValue_unit:
  "\<not> isLeadSurrogate u \<Longrightarrow> \<not> isTrailSurrogate u \<Longrightarrow> isScalarValue (unat u)"
  using unat_code_unit[of u] by (auto simp: isScalarValue_def isLeadSurrogate_def isTrailSurrogate_def)

lemma isScalarValue_FFFD: "isScalarValue 0xFFFD"
  by (simp add: isScalarValue_def)

lemma scalarValues_scalar: "\<forall>cp\<in>set (scalarValues s). isScalarValue cp"
  by (induction s rule: scalarValues.induct)
     (simp_all add: isScalarValue_surrogatePair isScalarValue_unit isScalarValue_FFFD)

lemma fromCodePoint_surrogatePair:
  assumes "isLeadSurrogate u" "isTrailSurrogate v"
  shows "fromCodePoint (surrogatePair u v) = [u, v]"
proof -
  define a where "a = unat u - 0xD800"
  define b where "b = unat v - 0xDC00"
  have a: "unat u = 0xD800 + a" using assms(1) unfolding a_def isLeadSurrogate_def by linarith
  have b: "unat v = 0xDC00 + b" "b < 0x400"
    using assms(2) unfolding b_def isTrailSurrogate_def by linarith+
  have sp: "surrogatePair u v = 0x10000 + (a * 0x400 + b)" by (simp add: surrogatePair_def a_def b_def)
  have "(a * 0x400 + b) div 0x400 = a" "(a * 0x400 + b) mod 0x400 = b" using b(2) by simp_all
  then have "fromCodePoint (surrogatePair u v) = [of_nat (unat u), of_nat (unat v)]"
    unfolding sp fromCodePoint_def using a b(1) by simp
  then show ?thesis by simp
qed

lemma fromCodePoint_unit: "fromCodePoint (unat (u :: code_unit)) = [u]"
  using unat_code_unit[of u] by (simp add: fromCodePoint_def)

lemma fromCodePoints_scalarValues:
  "isWellFormed s \<Longrightarrow> fromCodePoints (scalarValues s) = s"
  by (induction s rule: scalarValues.induct)
     (auto simp: fromCodePoints_def fromCodePoint_surrogatePair fromCodePoint_unit split: if_splits)

lemma dropBOM_scalarValues:
  assumes "\<not> prefix [0xFEFF] s"
  shows "dropBOM (scalarValues s) = scalarValues s"
proof (cases s rule: scalarValues.cases)
  case 1 then show ?thesis by simp
next
  case (2 u)
  then have "u \<noteq> 0xFEFF" using assms by simp
  then have "unat u \<noteq> 0xFEFF" by (simp add: word_unat_eq_iff)
  then show ?thesis using 2 by simp
next
  case (3 u v rest)
  then have "u \<noteq> 0xFEFF" using assms by simp
  then have "unat u \<noteq> 0xFEFF" by (simp add: word_unat_eq_iff)
  then show ?thesis using 3 surrogatePair_range[of u v] by auto
qed

lemma TextDecoder_TextEncoder:
  assumes "isWellFormed s" "\<not> prefix [0xFEFF] s"
  shows "TextDecoder_decode (TextEncoder_encode s) = s"
  unfolding TextDecoder_decode_def TextEncoder_encode_def
  by (simp add: utf8_roundtrip scalarValues_scalar dropBOM_scalarValues assms fromCodePoints_scalarValues)


subsection \<open>Encoding and decoding\<close>

lemma encode_eq:
  "encode str = map (\<lambda>i. of_nat (0x2060 + i)) (nibblesOf (TextEncoder_encode str))"
proof -
  have "fromCodePoints (map ((!) invisibleChars) ns) = map (\<lambda>i. of_nat (0x2060 + i)) ns"
    if "\<forall>n\<in>set ns. n < 16" for ns
    using that by (induction ns) (simp_all add: fromCodePoints_def fromCodePoint_def nth_invisibleChars)
  then show ?thesis
    using nibblesOf_less[of "TextEncoder_encode str"] by (simp add: encode_def nibblesOf_def)
qed

lemma codePoints_low:
  "\<forall>cp\<in>set cps. cp < 0xD800 \<Longrightarrow> codePoints (map of_nat cps) = cps"
proof (induction cps rule: induct_list012)
  case 1 then show ?case by simp
next
  case (2 cp) then show ?case by (simp add: unat_of_nat)
next
  case (3 cp cp' cps)
  have "unat (of_nat cp :: code_unit) = cp" using 3(3) by (simp add: unat_of_nat)
  moreover then have "\<not> isLeadSurrogate (of_nat cp)" using 3(3) by (simp add: isLeadSurrogate_def)
  ultimately show ?case using 3 by simp
qed

lemma decode_encode_wf:
  assumes "isWellFormed x" "\<not> prefix [0xFEFF] x"
  shows "decode (encode x) = Inr x"
proof -
  let ?ns = "nibblesOf (TextEncoder_encode x)"
  have lt: "\<forall>n\<in>set ?ns. n < 16" by (rule nibblesOf_less)
  have "encode x = map of_nat (map (\<lambda>i. 0x2060 + i) ?ns)" by (simp add: encode_eq)
  moreover have "\<forall>cp\<in>set (map (\<lambda>i. 0x2060 + i) ?ns). cp < 0xD800" using lt by auto
  ultimately have "codePoints (encode x) = map (\<lambda>i. 0x2060 + i) ?ns"
    using codePoints_low by metis
  then show ?thesis
    by (simp add: decode_def toNibbles_invisible[OF lt] pairNibbles_nibblesOf
        TextDecoder_TextEncoder[OF assms])
qed

lemma unat_invisible_unit:
  "n < 16 \<Longrightarrow> unat (word_of_nat (0x2060 + n) :: code_unit) = 0x2060 + n"
  unfolding unat_of_nat by simp

lemma encode_invisible: "\<forall>u\<in>set (encode x). isInvisible u"
proof
  fix u assume "u \<in> set (encode x)"
  then obtain n where n: "n \<in> set (nibblesOf (TextEncoder_encode x))" "u = word_of_nat (0x2060 + n)"
    unfolding encode_eq by auto
  then have lt: "n < 16" using nibblesOf_less by blast
  have "unat u = 0x2060 + n" unfolding n(2) using lt by (rule unat_invisible_unit)
  then show "isInvisible u" using lt by (simp add: isInvisible_iff)
qed

lemma Math_min_Nil: "Math_min [] = \<infinity>"
  by (simp add: Math_min_def)

lemma fold_min_acc:
  "fold (\<lambda>x m. min (enat x) m) xs a = min a (fold (\<lambda>x m. min (enat x) m) xs \<infinity>)"
proof (induction xs arbitrary: a)
  case Nil then show ?case by simp
next
  case (Cons x xs)
  show ?case
    using Cons[of "min (enat x) a"] Cons[of "enat x"] by (simp add: min.assoc min.commute)
qed

lemma Math_min_Cons: "Math_min (x # xs) = min (enat x) (Math_min xs)"
  using fold_min_acc[of xs "enat x"] by (simp add: Math_min_def)

lemma Math_min_map_Suc: "Math_min (map Suc xs) = eSuc (Math_min xs)"
  by (induction xs) (simp_all add: Math_min_Nil Math_min_Cons eSuc_enat[symmetric] min_def)

lemma Math_min_zero: "0 \<in> set xs \<Longrightarrow> Math_min xs = 0"
  by (induction xs) (auto simp: Math_min_Cons zero_enat_def[symmetric])

lemma fromCodePoint_invisible:
  "c \<in> set invisibleChars \<Longrightarrow> fromCodePoint c = [of_nat c]"
  by (simp add: set_invisibleChars fromCodePoint_def)

lemma indexOf_single_Cons:
  "indexOf (u # text) [c] = (if c = u then Some 0 else map_option (\<lambda>i. i + 1) (indexOf text [c]))"
  by simp

lemma indexOf_single_Nil: "indexOf [] [c] = None"
  by simp

lemma firstInvisible_Nil: "firstInvisible [] = \<infinity>"
proof -
  have "List.map_filter (\<lambda>char. indexOf [] (fromCodePoint char)) cs = []"
    if "set cs \<subseteq> set invisibleChars" for cs
    using that by (induction cs) (simp_all add: List.map_filter_simps fromCodePoint_invisible)
  then show ?thesis by (simp add: firstInvisible_def Math_min_Nil)
qed

lemma firstInvisible_visible:
  assumes "\<not> isInvisible u"
  shows "firstInvisible (u # text) = eSuc (firstInvisible text)"
proof -
  have ne: "of_nat c \<noteq> u" if "c \<in> set invisibleChars" for c
  proof
    assume "of_nat c = u"
    moreover have "c < 65536" using that by (simp add: set_invisibleChars)
    ultimately have "unat u = c" by (auto simp: unat_of_nat)
    then show False using assms that by (simp add: isInvisible_def)
  qed
  have "List.map_filter (\<lambda>char. indexOf (u # text) (fromCodePoint char)) cs =
        map (\<lambda>i. i + 1) (List.map_filter (\<lambda>char. indexOf text (fromCodePoint char)) cs)"
    if "set cs \<subseteq> set invisibleChars" for cs
    using that
  proof (induction cs)
    case Nil then show ?case by (simp add: List.map_filter_simps)
  next
    case (Cons c cs)
    then have c: "c \<in> set invisibleChars" by simp
    show ?case using Cons ne[OF c]
      by (cases "indexOf text [of_nat c]")
         (simp_all add: List.map_filter_simps fromCodePoint_invisible[OF c] del: indexOf.simps add: indexOf_single_Cons)
  qed
  then show ?thesis by (simp add: firstInvisible_def Math_min_map_Suc)
qed

lemma firstInvisible_invisible:
  assumes "isInvisible u"
  shows "firstInvisible (u # text) = 0"
proof -
  define c where "c = unat u"
  have c: "c \<in> set invisibleChars" using assms by (simp add: isInvisible_def c_def)
  have "indexOf (u # text) (fromCodePoint c) = Some 0"
    using fromCodePoint_invisible[OF c] by (simp add: c_def)
  then have "0 \<in> set (List.map_filter (\<lambda>char. indexOf (u # text) (fromCodePoint char)) invisibleChars)"
    using c by (force simp: List.map_filter_def)
  then show ?thesis unfolding firstInvisible_def by (rule Math_min_zero)
qed

lemma substring_firstInvisible:
  assumes "\<forall>u\<in>set visible. \<not> isInvisible u" "\<forall>u\<in>set e. isInvisible u"
  shows "substring (visible @ e) (firstInvisible (visible @ e)) = e"
  using assms(1)
proof (induction visible)
  case Nil
  show ?case
  proof (cases e)
    case Nil then show ?thesis by (simp add: firstInvisible_Nil substring_def)
  next
    case (Cons u e')
    then have "isInvisible u" using assms(2) by simp
    then show ?thesis using Cons by (simp add: firstInvisible_invisible substring_def zero_enat_def)
  qed
next
  case (Cons a visible)
  then have "firstInvisible ((a # visible) @ e) = eSuc (firstInvisible (visible @ e))"
    by (simp add: firstInvisible_visible)
  then show ?case using Cons
    by (cases "firstInvisible (visible @ e)") (simp_all add: substring_def eSuc_enat)
qed

lemma decodeAppended_append:
  assumes "isWellFormed x" "\<not> prefix [0xFEFF] x" "\<forall>u\<in>set visible. \<not> isInvisible u"
  shows "decodeAppendedInvisible (appendInvisible visible x) = Inr x"
  using substring_firstInvisible[OF assms(3) encode_invisible[of x]] decode_encode_wf[OF assms(1,2)]
  by (simp add: decodeAppendedInvisible_def appendInvisible_def firstInvisible_def)

lemma decodeAppended_none:
  assumes "\<forall>u\<in>set text. \<not> isInvisible u"
  shows "decodeAppendedInvisible text = Inr []"
proof -
  have "substring (text @ []) (firstInvisible (text @ [])) = []"
    by (rule substring_firstInvisible) (use assms in simp_all)
  then show ?thesis
    by (simp add: decodeAppendedInvisible_def firstInvisible_def decode_def TextDecoder_decode_def
        fromCodePoints_def bytes_needed_initial)
qed

lemma upt_16: "[0..<16] = [0,1,2,3,4,5,6,7,8,9,10,11,12,13,14,15::nat]"
  by (simp add: upt_rec)


section \<open>Properties of the functions of \<open>embeds.ts\<close>\<close>

subsection \<open>The embeds that are built\<close>

lemma buildEmbed_title:
  "buildEmbed R sourceId i file = Inr data \<Longrightarrow>
   embedTitle data = Some (if i > 0 then the (name file) else appendInvisible (the (name file)) sourceId)"
  by (auto simp: buildEmbed_def Let_def embedTitle_def split: if_splits option.splits)

lemma buildEmbeds_titles:
  "buildEmbeds R sourceId k files = Inr es \<Longrightarrow>
   length es = length files \<and>
   (\<forall>j<length files. embedTitle (es ! j) =
      Some (if k + j > 0 then the (name (files ! j)) else appendInvisible (the (name (files ! j))) sourceId))"
proof (induction files arbitrary: k es)
  case Nil
  then show ?case by simp
next
  case (Cons f files)
  from Cons.prems obtain data rest where
    d: "buildEmbed R sourceId k f = Inr data" and
    r: "buildEmbeds R sourceId (k + 1) files = Inr rest" and
    es: "es = data # rest"
    by (auto split: sum.splits)
  note ih = Cons.IH[OF r]
  show ?case
  proof (intro conjI allI impI)
    show "length es = length (f # files)" using ih es by simp
  next
    fix j assume j: "j < length (f # files)"
    show "embedTitle (es ! j) =
      Some (if k + j > 0 then the (name ((f # files) ! j))
            else appendInvisible (the (name ((f # files) ! j))) sourceId)"
    proof (cases j)
      case 0
      then show ?thesis using buildEmbed_title[OF d] es by simp
    next
      case (Suc j')
      then have "j' < length files" using j by simp
      then show ?thesis using ih es Suc by simp
    qed
  qed
qed

lemma buildEmbeds_total:
  assumes "\<forall>f\<in>set files. truthy (name f) \<and> truthy (webViewLink f) \<and> truthy (mimeType f)
             \<and> truthy (modifiedTime f) \<and> dateParse R (the (modifiedTime f)) \<noteq> None"
      and "\<forall>d. builderAccepts R d"
  shows "\<exists>es. buildEmbeds R sourceId k files = Inr es"
  using assms(1)
proof (induction files arbitrary: k)
  case Nil
  then show ?case by simp
next
  case (Cons f files)
  then obtain es where "buildEmbeds R sourceId (k + 1) files = Inr es" by auto
  moreover obtain d where "buildEmbed R sourceId k f = Inr d"
    using Cons.prems assms(2) by (auto simp: buildEmbed_def Let_def)
  ultimately show ?case by simp
qed

subsection \<open>The files that are resolved\<close>

lemma getFiles_all_found:
  "(\<forall>fid\<in>set fileIds. \<forall>e. filesGet R fid = Inl e \<longrightarrow> isNotFound e) \<Longrightarrow>
   getFiles R fileIds =
     Inr (map (\<lambda>fid. case filesGet R fid of Inr f \<Rightarrow> Some f | Inl e \<Rightarrow> None) fileIds)"
  by (induction fileIds) (auto split: sum.splits)

lemma getFiles_Inr:
  "getFiles R fileIds = Inr files \<Longrightarrow>
     (\<forall>fid\<in>set fileIds. \<forall>e. filesGet R fid = Inl e \<longrightarrow> isNotFound e)
     \<and> files = map (\<lambda>fid. case filesGet R fid of Inr f \<Rightarrow> Some f | Inl e \<Rightarrow> None) fileIds"
  by (induction fileIds arbitrary: files) (auto split: sum.splits if_splits)

lemma getFiles_Inl:
  "getFiles R fileIds = Inl e \<Longrightarrow> \<not> isNotFound e \<and> (\<exists>fid\<in>set fileIds. filesGet R fid = Inl e)"
  by (induction fileIds) (auto split: sum.splits if_splits)

lemma map_filter_resolved:
  "List.map_filter (\<lambda>file. file)
     (map (\<lambda>fid. case filesGet R fid of Inr f \<Rightarrow> Some f | Inl e \<Rightarrow> None) fileIds)
   = concat (map (\<lambda>fid. case filesGet R fid of Inr f \<Rightarrow> [f] | Inl e \<Rightarrow> []) fileIds)"
  by (induction fileIds) (auto simp: List.map_filter_simps split: sum.splits)

lemma subseq_resolved:
  "subseq (map Inr (concat (map (\<lambda>fid. case filesGet R fid of Inr f \<Rightarrow> [f] | Inl e \<Rightarrow> []) fileIds)))
          (map (filesGet R) fileIds)"
  by (induction fileIds) (auto split: sum.splits)

subsection \<open>Callbacks that can throw\<close>

lemma someM_Inr:
  assumes "\<forall>x\<in>set xs. \<exists>b. p x = Inr b"
  shows "someM p xs = Inr (\<exists>x\<in>set xs. p x = Inr True)"
  using assms by (induction xs) auto

lemma everyM_Inr:
  assumes "\<forall>x\<in>set xs. \<exists>b. p x = Inr b"
  shows "everyM p xs = Inr (\<forall>x\<in>set xs. p x = Inr True)"
  using assms by (induction xs) auto

lemma urlMatches_Inr:
  assumes "\<forall>f\<in>set fileUrls. normalizes R f" and "\<forall>u. eUrl = Some u \<longrightarrow> normalizes R u"
  shows "urlMatches R fileUrls eUrl =
           Inr (\<exists>u. eUrl = Some u \<and> u \<noteq> []
                  \<and> (\<exists>f\<in>set fileUrls. normalizeUrl R normalizeOptions u = normalizeUrl R normalizeOptions f))"
proof (cases "truthy eUrl")
  case False
  then show ?thesis by (auto simp: urlMatches_def truthy_def split: option.splits)
next
  case True
  then obtain u where u: "eUrl = Some u" "u \<noteq> []" by (auto simp: truthy_def split: option.splits)
  then obtain n where n: "normalizeUrl R normalizeOptions u = Inr n" using assms(2) by (auto simp: normalizes_def)
  let ?p = "\<lambda>fileUrl. case normalizeUrl R normalizeOptions fileUrl of Inl e \<Rightarrow> Inl e | Inr n' \<Rightarrow> Inr (n = n')"
  have "\<forall>f\<in>set fileUrls. \<exists>b. ?p f = Inr b" using assms(1) by (auto simp: normalizes_def)
  then have "someM ?p fileUrls = Inr (\<exists>f\<in>set fileUrls. ?p f = Inr True)" by (rule someM_Inr)
  moreover have "(?p f = Inr True) \<longleftrightarrow> (Inr n = normalizeUrl R normalizeOptions f)" for f
    by (cases "normalizeUrl R normalizeOptions f") auto
  ultimately show ?thesis using u n True by (simp add: urlMatches_def)
qed

subsection \<open>The comparison of embeds\<close>

lemma someDiffers_iff:
  "length old = length new \<Longrightarrow>
   someDiffers R old new \<longleftrightarrow> (\<exists>i<length old. embedDiffers R (old ! i) (new ! i))"
proof (induction R old new rule: someDiffers.induct)
  case (1 R news)
  then show ?case by simp
next
  case (2 R old olds)
  then show ?case by simp
next
  case (3 R old olds new news)
  then have ih: "someDiffers R olds news \<longleftrightarrow> (\<exists>i<length olds. embedDiffers R (olds ! i) (news ! i))"
    by simp
  show ?case
  proof
    assume "someDiffers R (old # olds) (new # news)"
    then consider "embedDiffers R old new" | "someDiffers R olds news" by auto
    then show "\<exists>i<length (old # olds). embedDiffers R ((old # olds) ! i) ((new # news) ! i)"
    proof cases
      case 1
      then show ?thesis by (intro exI[of _ 0]) simp
    next
      case 2
      then obtain i where "i < length olds" "embedDiffers R (olds ! i) (news ! i)" using ih by auto
      then show ?thesis by (intro exI[of _ "Suc i"]) simp
    qed
  next
    assume "\<exists>i<length (old # olds). embedDiffers R ((old # olds) ! i) ((new # news) ! i)"
    then obtain i where i: "i < length (old # olds)" "embedDiffers R ((old # olds) ! i) ((new # news) ! i)"
      by auto
    show "someDiffers R (old # olds) (new # news)"
    proof (cases i)
      case 0
      then show ?thesis using i by simp
    next
      case (Suc j)
      then have "j < length olds" "embedDiffers R (olds ! j) (news ! j)" using i by simp_all
      then show ?thesis using ih by auto
    qed
  qed
qed

lemma deepMatch_iff:
  "deepMatch sub a \<longleftrightarrow> (\<forall>(key, v)\<in>set sub. map_of a key = Some v)"
  by (simp add: deepMatch_def list_all_iff)

lemma embedDiffers_iff:
  "embedDiffers R old new \<longleftrightarrow>
     numbersDiffer (getTime R (map_of old ''timestamp'')) (getTime R (map_of new ''timestamp''))
     \<or> (\<exists>(key, v)\<in>set new. key \<noteq> ''timestamp'' \<and> map_of old key \<noteq> Some v)"
  by (auto simp: embedDiffers_def deepMatch_iff)

lemma numbersDiffer_iff: "\<not> numbersDiffer a b \<longleftrightarrow> (\<exists>t. a = Some t \<and> b = Some t)"
  by (auto simp: numbersDiffer_def split: option.splits)

lemma map_of_append_extra:
  assumes "key \<notin> fst ` set extra"
  shows "map_of (old @ extra) key = map_of old key"
proof -
  have "map_of extra key = None" using assms by (simp add: map_of_eq_None_iff)
  then show ?thesis by (simp add: map_add_def split: option.splits)
qed

lemma embedDiffers_extra:
  assumes "\<forall>key\<in>fst ` set extra. key \<noteq> ''timestamp'' \<and> key \<notin> fst ` set new"
  shows "embedDiffers R (old @ extra) new = embedDiffers R old new"
proof -
  have ts: "map_of (old @ extra) ''timestamp'' = map_of old ''timestamp''"
    using assms by (intro map_of_append_extra) auto
  have "map_of (old @ extra) key = map_of old key" if "(key, v) \<in> set new" for key v
  proof (rule map_of_append_extra)
    have "key \<in> fst ` set new" using that by force
    then show "key \<notin> fst ` set extra" using assms by blast
  qed
  then have "(\<exists>(key, v)\<in>set new. key \<noteq> ''timestamp'' \<and> map_of (old @ extra) key \<noteq> Some v)
        = (\<exists>(key, v)\<in>set new. key \<noteq> ''timestamp'' \<and> map_of old key \<noteq> Some v)"
    by (intro bex_cong[OF refl]) (auto simp del: map_of_append)
  then show ?thesis unfolding embedDiffers_iff ts by simp
qed

subsection \<open>The lookup of the old embeds message\<close>

lemma attempts_Suc:
  "attempts message (Suc k) =
     [Fetch (channelId message) (messageId message) 10, Sleep 1000] @ attempts message k"
  by (simp add: attempts_def)


lemma trace_doFetch:
  "doFetch P c a l s = (r, s1) \<Longrightarrow> trace s1 = trace s @ [Fetch c a l]"
  by (auto simp: doFetch_def split: prod.splits)

lemma trace_doSleep: "trace (doSleep P ms s) = trace s @ [Sleep ms]"
  by (simp add: doSleep_def)

lemma retrieve_returns:
  "0 \<le> maxRetries \<Longrightarrow> n = nat maxRetries \<Longrightarrow>
   \<exists>r s' k. retrieveOldEmbedsMessage P message maxRetries s = Some (r, s')
      \<and> k \<le> n \<and> trace s' = trace s @ attempts message k
      \<and> (r = Inr None \<longrightarrow> k = n)"
proof (induction n arbitrary: maxRetries s)
  case 0
  then have z: "maxRetries = 0" by simp
  obtain r s1 where f: "doFetch P (channelId message) (messageId message) 10 s = (r, s1)"
    by (cases "doFetch P (channelId message) (messageId message) 10 s") auto
  have t: "trace s1 = trace s @ attempts message 0"
    using trace_doFetch[OF f] by (simp add: attempts_def)
  show ?case
    using f t z
    by (subst retrieveOldEmbedsMessage.simps) (auto split: sum.splits)
next
  case (Suc n)
  then have pos: "maxRetries \<noteq> 0" and prev: "0 \<le> maxRetries - 1" "n = nat (maxRetries - 1)"
    by simp_all
  obtain r s1 where f: "doFetch P (channelId message) (messageId message) 10 s = (r, s1)"
    by (cases "doFetch P (channelId message) (messageId message) 10 s") auto
  have t: "trace s1 = trace s @ attempts message 0"
    using trace_doFetch[OF f] by (simp add: attempts_def)
  show ?case
  proof (cases r)
    case (Inl e)
    then show ?thesis using f t
      by (subst retrieveOldEmbedsMessage.simps) auto
  next
    case (Inr history)
    show ?thesis
    proof (cases "findOldEmbedsMessage (messageId message) (clientUserId message) history")
      case (Inl e)
      then show ?thesis using f t Inr
        by (subst retrieveOldEmbedsMessage.simps) auto
    next
      case found: (Inr old)
      show ?thesis
      proof (cases old)
        case (Some m)
        then show ?thesis using f t Inr found
          by (subst retrieveOldEmbedsMessage.simps) auto
      next
        case None
        from Suc.IH[OF prev, of "doSleep P 1000 s1"]
        obtain r' s' k where
          rec: "retrieveOldEmbedsMessage P message (maxRetries - 1) (doSleep P 1000 s1) = Some (r', s')"
          and k: "k \<le> n" "trace s' = trace (doSleep P 1000 s1) @ attempts message k"
                "r' = Inr None \<longrightarrow> k = n"
          by blast
        have "trace s' = trace s @ attempts message (Suc k)"
          using k(2) trace_doFetch[OF f] by (simp add: trace_doSleep attempts_Suc)
        then show ?thesis using f Inr found None pos rec k
          by (subst retrieveOldEmbedsMessage.simps) auto
      qed
    qed
  qed
qed

lemma findFirst_Some:
  "findFirst p xs = Inr (Some x) \<Longrightarrow>
   \<exists>earlier later. xs = earlier @ x # later \<and> p x = Inr True \<and> (\<forall>e\<in>set earlier. p e = Inr False)"
proof (induction xs)
  case Nil
  then show ?case by simp
next
  case (Cons a xs)
  show ?case
  proof (cases "p a")
    case (Inl e)
    then show ?thesis using Cons.prems by simp
  next
    case (Inr b)
    show ?thesis
    proof (cases b)
      case True
      then have "a = x" using Cons.prems Inr by simp
      then show ?thesis using Inr True by (intro exI[of _ "[]"] exI[of _ xs]) simp
    next
      case False
      then have "findFirst p xs = Inr (Some x)" using Cons.prems Inr by simp
      from Cons.IH[OF this] obtain earlier later where
        "xs = earlier @ x # later" "p x = Inr True" "\<forall>e\<in>set earlier. p e = Inr False" by blast
      then show ?thesis using Inr False by (intro exI[of _ "a # earlier"] exI[of _ later]) simp
    qed
  qed
qed

lemma findFirst_None: "findFirst p xs = Inr None \<Longrightarrow> \<forall>x\<in>set xs. p x = Inr False"
  by (induction xs) (auto split: sum.splits if_splits)

lemma trace_doEdit: "trace (snd (doEdit P m n s)) = trace s @ [Edit m n]"
  by (simp add: doEdit_def split: prod.splits)

lemma embedDiffers_strings:
  assumes "map_of old ''timestamp'' = Some (JString a)" "map_of new ''timestamp'' = Some (JString b)"
  shows "embedDiffers R old new \<longleftrightarrow>
           dateParse R a = None \<or> dateParse R b = None \<or> dateParse R a \<noteq> dateParse R b
           \<or> (\<exists>(key, v)\<in>set new. key \<noteq> ''timestamp'' \<and> map_of old key \<noteq> Some v)"
  unfolding embedDiffers_iff assms getTime_def
  by (auto simp: numbersDiffer_def split: option.splits)


section \<open>The link extractor\<close>

subsection \<open>The extractor on the example texts\<close>

lemma AtLeast_numeral: "AtLeast (numeral k) r = Seq r (AtLeast (pred_numeral k) r)"
  by (simp add: numeral_eq_Suc)

lemmas regex_eval = extractFileIds_def regex_def regex_host_def regex_segment_def regex_tail_def
  Plus_def notSeparator_def notTrailing_def idChar_def isWhiteSpace_def isWordChar_def js_def
  AtLeast_numeral

lemma extractFileIds_linkSource:
  "extractFileIds (content linkSource) =
     [\<lparr>url = js ''https://drive.google.com/file/d/1aB2cD3eF4gH5iJ6kL7mN8oP9q/view'',
       fileId = js ''1aB2cD3eF4gH5iJ6kL7mN8oP9q''\<rparr>]"
  by (simp add: regex_eval linkSource_def)


lemma extractFileIds_exampleText:
  "extractFileIds exampleText =
     [\<lparr>url = js ''https://drive.google.com/file/d/1aB2cD3eF4gH5iJ6kL7mN8oP9q/view'',
       fileId = js ''1aB2cD3eF4gH5iJ6kL7mN8oP9q''\<rparr>,
      \<lparr>url = js ''https://drive.google.com/drive/folders/0B_abcdefghijklmnopqrstuvwx-yz'',
       fileId = js ''0B_abcdefghijklmnopqrstuvwx-yz''\<rparr>]"
  by (simp add: regex_eval exampleText_def)

lemma extractFileIds_exampleTwice:
  "extractFileIds exampleTwice =
     [\<lparr>url = js ''https://drive.google.com/file/d/1aB2cD3eF4gH5iJ6kL7mN8oP9q/view'',
       fileId = js ''1aB2cD3eF4gH5iJ6kL7mN8oP9q''\<rparr>,
      \<lparr>url = js ''https://drive.google.com/file/d/1aB2cD3eF4gH5iJ6kL7mN8oP9q/view'',
       fileId = js ''1aB2cD3eF4gH5iJ6kL7mN8oP9q''\<rparr>]"
  by (simp add: regex_eval exampleTwice_def)

lemma extractFileIds_exampleJoined:
  "extractFileIds exampleJoined =
     [\<lparr>url = exampleJoined, fileId = js ''0B_abcdefghijklmnopqrstuvwx-yz''\<rparr>]"
  by (simp add: regex_eval exampleJoined_def matches.simps matchAll.simps)


subsection \<open>The matcher finds the strings of the expression\<close>

declare matches.simps [simp del]

lemma in_matches_Lit:
  "(t, c') \<in> set (matches (Lit w) (s, c)) \<longleftrightarrow> s = w @ t \<and> c' = c"
  by (auto simp: matches.simps(1) prefix_def)

lemma in_matches_Class:
  "(t, c') \<in> set (matches (Class p) (s, c)) \<longleftrightarrow> (\<exists>u. s = u # t \<and> p u) \<and> c' = c"
  by (auto simp: matches.simps(2) split: list.splits)

lemma in_matches_Seq:
  "(t, c') \<in> set (matches (Seq a b) st) \<longleftrightarrow>
     (\<exists>tm cm. (tm, cm) \<in> set (matches a st) \<and> (t, c') \<in> set (matches b (tm, cm)))"
  by (auto simp: matches.simps(3))

lemma in_matches_Alt:
  "(t, c') \<in> set (matches (Alt a b) st) \<longleftrightarrow>
     (t, c') \<in> set (matches a st) \<or> (t, c') \<in> set (matches b st)"
  by (simp add: matches.simps(4))

lemma in_matches_Opt:
  "(t, c') \<in> set (matches (Opt a) st) \<longleftrightarrow> (t, c') \<in> set (matches a st) \<or> (t, c') = st"
  by (auto simp: matches.simps(5))

lemma in_matches_Star:
  "(t, c') \<in> set (matches (Star a) (s, c)) \<longleftrightarrow>
     (t, c') = (s, c)
     \<or> (\<exists>tm cm. (tm, cm) \<in> set (matches a (s, c)) \<and> length tm < length s
                  \<and> (t, c') \<in> set (matches (Star a) (tm, cm)))"
proof -
  have eq: "matches (Star a) (s, c) =
     concat (map (\<lambda>(t, c'). if length t < length s then matches (Star a) (t, c') else [])
                 (matches a (s, c))) @ [(s, c)]"
    by (rule matches.simps(6))
  show ?thesis unfolding eq by (auto split: if_splits)
qed

lemma in_matches_Group:
  "(t, c') \<in> set (matches (Group a) (s, c)) \<longleftrightarrow>
     (\<exists>c0. (t, c0) \<in> set (matches a (s, c))) \<and> c' = Some (take (length s - length t) s)"
  by (auto simp: matches.simps(7))

lemma matches_sound:
  "(t, c') \<in> set (matches r st) \<Longrightarrow> \<exists>w. fst st = w @ t \<and> w \<in> lang r"
proof (induction r st arbitrary: t c' rule: matches.induct)
  case (1 w s c)
  then show ?case by (simp add: in_matches_Lit)
next
  case (2 p s c)
  then show ?case by (auto simp: in_matches_Class)
next
  case (3 a b st)
  from 3(3) obtain tm cm where mid: "(tm, cm) \<in> set (matches a st)"
    and tb: "(t, c') \<in> set (matches b (tm, cm))"
    by (auto simp: in_matches_Seq)
  from 3(1)[OF mid] obtain w1 where w1: "fst st = w1 @ tm" "w1 \<in> lang a" by auto
  from 3(2)[OF mid tb] obtain w2 where w2: "tm = w2 @ t" "w2 \<in> lang b" by auto
  show ?case using w1 w2 by (intro exI[of _ "w1 @ w2"]) auto
next
  case (4 a b st)
  from 4(3) consider "(t, c') \<in> set (matches a st)" | "(t, c') \<in> set (matches b st)"
    by (auto simp: in_matches_Alt)
  then show ?case
  proof cases
    case 1
    from 4(1)[OF 1] show ?thesis by auto
  next
    case 2
    from 4(2)[OF 2] show ?thesis by auto
  qed
next
  case (5 a st)
  from 5(2) consider "(t, c') \<in> set (matches a st)" | "(t, c') = st"
    by (auto simp: in_matches_Opt)
  then show ?case
  proof cases
    case 1
    from 5(1)[OF 1] show ?thesis by auto
  next
    case 2
    then show ?thesis by auto
  qed
next
  case (6 a s c)
  from 6(3) consider
      "(t, c') = (s, c)"
    | tm cm where "(tm, cm) \<in> set (matches a (s, c))" "length tm < length s"
                  "(t, c') \<in> set (matches (Star a) (tm, cm))"
    using in_matches_Star[of t c' a s c] by blast
  then show ?case
  proof cases
    case 1
    then show ?thesis by (auto intro: kleene_Nil)
  next
    case 2
    from 6(1)[OF 2(1)] obtain w1 where w1: "s = w1 @ tm" "w1 \<in> lang a" by auto
    from 6(2)[OF 2(1) refl 2(2) 2(3)] obtain w2 where w2: "tm = w2 @ t" "w2 \<in> kleene (lang a)" by auto
    show ?thesis using w1 w2 by (intro exI[of _ "w1 @ w2"]) (auto intro: kleene_app)
  qed
next
  case (7 a s c)
  from 7(2) obtain c0 where "(t, c0) \<in> set (matches a (s, c))" by (auto simp: in_matches_Group)
  from 7(1)[OF this] show ?case by simp
qed

lemma matches_groupFree:
  "groupFree r \<Longrightarrow> (t, c') \<in> set (matches r st) \<Longrightarrow> c' = snd st"
proof (induction r st arbitrary: t c' rule: matches.induct)
  case (1 w s c)
  then show ?case by (simp add: in_matches_Lit)
next
  case (2 p s c)
  then show ?case by (simp add: in_matches_Class)
next
  case (3 a b st)
  from 3(4) obtain tm cm where mid: "(tm, cm) \<in> set (matches a st)"
    and tb: "(t, c') \<in> set (matches b (tm, cm))"
    by (auto simp: in_matches_Seq)
  from 3(1)[OF _ mid] 3(3) have "cm = snd st" by simp
  moreover from 3(2)[OF mid _ tb] 3(3) have "c' = cm" by simp
  ultimately show ?case by simp
next
  case (4 a b st)
  from 4(4) consider "(t, c') \<in> set (matches a st)" | "(t, c') \<in> set (matches b st)"
    by (auto simp: in_matches_Alt)
  then show ?case
  proof cases
    case 1
    from 4(1)[OF _ 1] 4(3) show ?thesis by simp
  next
    case 2
    from 4(2)[OF _ 2] 4(3) show ?thesis by simp
  qed
next
  case (5 a st)
  from 5(3) consider "(t, c') \<in> set (matches a st)" | "(t, c') = st"
    by (auto simp: in_matches_Opt)
  then show ?case
  proof cases
    case 1
    from 5(1)[OF _ 1] 5(2) show ?thesis by simp
  next
    case 2
    then show ?thesis by auto
  qed
next
  case (6 a s c)
  from 6(4) consider
      "(t, c') = (s, c)"
    | tm cm where "(tm, cm) \<in> set (matches a (s, c))" "length tm < length s"
                  "(t, c') \<in> set (matches (Star a) (tm, cm))"
    using in_matches_Star[of t c' a s c] by blast
  then show ?case
  proof cases
    case 1
    then show ?thesis by simp
  next
    case 2
    from 6(1)[OF _ 2(1)] 6(3) have "cm = c" by simp
    moreover from 6(2)[OF 2(1) refl 2(2) 6(3) 2(3)] have "c' = cm" by simp
    ultimately show ?thesis by simp
  qed
next
  case (7 a s c)
  then show ?case by simp
qed

lemma matches_Group:
  assumes "(t, c') \<in> set (matches (Group a) (s, c))"
  shows "\<exists>w. s = w @ t \<and> w \<in> lang a \<and> c' = Some w"
proof -
  from assms obtain c0 where in_a: "(t, c0) \<in> set (matches a (s, c))"
    and c': "c' = Some (take (length s - length t) s)" by (auto simp: in_matches_Group)
  from matches_sound[OF in_a] obtain w where w: "s = w @ t" "w \<in> lang a" by auto
  then have "take (length s - length t) s = w" by simp
  then show ?thesis using w c' by blast
qed

lemma matches_complete:
  "w \<in> lang r \<Longrightarrow> \<exists>c'. (t, c') \<in> set (matches r (w @ t, c))"
proof (induction r arbitrary: w t c)
  case (Lit x)
  then show ?case by (simp add: in_matches_Lit)
next
  case (Class p)
  then show ?case by (auto simp: in_matches_Class)
next
  case (Seq a b)
  from Seq.prems obtain u v where w: "w = u @ v" "u \<in> lang a" "v \<in> lang b" by auto
  from Seq.IH(1)[OF w(2), of "v @ t" c] obtain c1 where
    1: "(v @ t, c1) \<in> set (matches a (u @ v @ t, c))" by auto
  from Seq.IH(2)[OF w(3), of t c1] obtain c2 where
    2: "(t, c2) \<in> set (matches b (v @ t, c1))" by auto
  show ?case using 1 2 w(1) by (auto simp: in_matches_Seq)
next
  case (Alt a b)
  from Alt.prems consider "w \<in> lang a" | "w \<in> lang b" by auto
  then show ?case
  proof cases
    case 1
    from Alt.IH(1)[OF 1, of t c] show ?thesis by (auto simp: in_matches_Alt)
  next
    case 2
    from Alt.IH(2)[OF 2, of t c] show ?thesis by (auto simp: in_matches_Alt)
  qed
next
  case (Opt a)
  from Opt.prems consider "w = []" | "w \<in> lang a" by auto
  then show ?case
  proof cases
    case 1
    then show ?thesis by (auto simp: in_matches_Opt)
  next
    case 2
    from Opt.IH[OF 2, of t c] show ?thesis by (auto simp: in_matches_Opt)
  qed
next
  case (Star a)
  from Star.prems have "w \<in> kleene (lang a)" by simp
  then show ?case
  proof (induction arbitrary: c rule: kleene.induct)
    case kleene_Nil
    show ?case using in_matches_Star[of t _ a t c] by auto
  next
    case (kleene_app x w)
    show ?case
    proof (cases "x = []")
      case True
      then show ?thesis using kleene_app.IH[of c] by simp
    next
      case False
      from Star.IH[OF kleene_app.hyps(1), of "w @ t" c] obtain c1 where
        1: "(w @ t, c1) \<in> set (matches a (x @ w @ t, c))" by auto
      from kleene_app.IH[of c1] obtain c2 where
        2: "(t, c2) \<in> set (matches (Star a) (w @ t, c1))" by auto
      have len: "length (w @ t) < length ((x @ w) @ t)" using False by simp
      have "(t, c2) \<in> set (matches (Star a) ((x @ w) @ t, c))"
        using in_matches_Star[of t c2 a "(x @ w) @ t" c] 1 2 len by auto
      then show ?thesis by blast
    qed
  qed
next
  case (Group a)
  from Group.IH[of w t c] Group.prems obtain c1 where "(t, c1) \<in> set (matches a (w @ t, c))" by auto
  then show ?case by (auto simp: in_matches_Group)
qed


subsection \<open>The strings of the pattern are the links\<close>

lemma kleene_Class: "w \<in> kleene {[u] | u. p u} \<longleftrightarrow> list_all p w"
proof
  assume "w \<in> kleene {[u] | u. p u}"
  then show "list_all p w" by (induction rule: kleene.induct) auto
next
  assume "list_all p w"
  then show "w \<in> kleene {[u] | u. p u}"
  proof (induction w)
    case Nil
    show ?case by (rule kleene_Nil)
  next
    case (Cons u w)
    then have "[u] \<in> {[u] | u. p u}" "w \<in> kleene {[u] | u. p u}" by auto
    then have "[u] @ w \<in> kleene {[u] | u. p u}" by (rule kleene_app)
    then show ?case by simp
  qed
qed

lemma lang_Star_Class: "lang (Star (Class p)) = {w. list_all p w}"
  by (auto simp: kleene_Class)

lemma lang_Seq_Class:
  "lang (Seq (Class p) r) = {w. \<exists>u v. w = u # v \<and> p u \<and> v \<in> lang r}"
proof (intro set_eqI iffI)
  fix w assume "w \<in> lang (Seq (Class p) r)"
  then show "w \<in> {w. \<exists>u v. w = u # v \<and> p u \<and> v \<in> lang r}" by auto
next
  fix w assume "w \<in> {w. \<exists>u v. w = u # v \<and> p u \<and> v \<in> lang r}"
  then obtain u v where w: "w = [u] @ v" "p u" "v \<in> lang r" by auto
  have "[u] \<in> lang (Class p)" using w(2) by simp
  then show "w \<in> lang (Seq (Class p) r)" unfolding lang.simps(3) using w(1,3) by blast
qed

lemma lang_Plus_Class: "lang (Plus (Class p)) = {w. w \<noteq> [] \<and> list_all p w}"
proof (intro set_eqI)
  fix w
  show "w \<in> lang (Plus (Class p)) \<longleftrightarrow> w \<in> {w. w \<noteq> [] \<and> list_all p w}"
    unfolding Plus_def lang_Seq_Class lang_Star_Class by (cases w) auto
qed

lemma lang_AtLeast_Class: "lang (AtLeast n (Class p)) = {w. n \<le> length w \<and> list_all p w}"
proof (induction n)
  case 0
  show ?case using lang_Star_Class[of p] by simp
next
  case (Suc n)
  show ?case
  proof (intro set_eqI)
    fix w
    show "w \<in> lang (AtLeast (Suc n) (Class p)) \<longleftrightarrow> w \<in> {w. Suc n \<le> length w \<and> list_all p w}"
      unfolding AtLeast.simps lang_Seq_Class Suc by (cases w) auto
  qed
qed

lemma js_append: "js (a @ b) = js a @ js b"
  by (simp add: js_def)

lemma lang_Seq_Lit: "lang (Seq (Lit a) r) = {a @ v | v. v \<in> lang r}"
  by auto

lemma lang_Seq_Opt_Lit: "lang (Seq (Opt (Lit a)) r) = {z @ v | z v. z \<in> {[], a} \<and> v \<in> lang r}"
proof (intro set_eqI iffI)
  fix w assume "w \<in> lang (Seq (Opt (Lit a)) r)"
  then obtain u v where "w = u @ v" "u \<in> {[], a}" "v \<in> lang r" by auto
  then show "w \<in> {z @ v | z v. z \<in> {[], a} \<and> v \<in> lang r}" by blast
next
  fix w assume "w \<in> {z @ v | z v. z \<in> {[], a} \<and> v \<in> lang r}"
  then obtain u v where "w = u @ v" "u \<in> lang (Opt (Lit a))" "v \<in> lang r" by auto
  then show "w \<in> lang (Seq (Opt (Lit a)) r)" unfolding lang.simps(3) by blast
qed

lemma lang_Seq_Alt_Lit:
  "lang (Seq (Alt (Lit a) (Lit b)) r) = {h @ v | h v. h \<in> {a, b} \<and> v \<in> lang r}"
proof (intro set_eqI iffI)
  fix w assume "w \<in> lang (Seq (Alt (Lit a) (Lit b)) r)"
  then obtain u v where "w = u @ v" "u \<in> {a, b}" "v \<in> lang r" by auto
  then show "w \<in> {h @ v | h v. h \<in> {a, b} \<and> v \<in> lang r}" by blast
next
  fix w assume "w \<in> {h @ v | h v. h \<in> {a, b} \<and> v \<in> lang r}"
  then obtain u v where "w = u @ v" "u \<in> lang (Alt (Lit a) (Lit b))" "v \<in> lang r" by auto
  then show "w \<in> lang (Seq (Alt (Lit a) (Lit b)) r)" unfolding lang.simps(3) by blast
qed

lemma lang_Seq_Alt3_Lit:
  "lang (Seq (Alt (Lit a) (Alt (Lit b) (Lit c))) r) = {h @ v | h v. h \<in> {a, b, c} \<and> v \<in> lang r}"
proof (intro set_eqI iffI)
  fix w assume "w \<in> lang (Seq (Alt (Lit a) (Alt (Lit b) (Lit c))) r)"
  then obtain u v where "w = u @ v" "u \<in> {a, b, c}" "v \<in> lang r" by auto
  then show "w \<in> {h @ v | h v. h \<in> {a, b, c} \<and> v \<in> lang r}" by blast
next
  fix w assume "w \<in> {h @ v | h v. h \<in> {a, b, c} \<and> v \<in> lang r}"
  then obtain u v where "w = u @ v" "u \<in> lang (Alt (Lit a) (Alt (Lit b) (Lit c)))" "v \<in> lang r"
    by auto
  then show "w \<in> lang (Seq (Alt (Lit a) (Alt (Lit b) (Lit c))) r)" unfolding lang.simps(3) by blast
qed

lemma lang_regex_host:
  "lang regex_host =
     {scheme @ js ''://'' @ host @ js ''.google.com/'' | scheme host.
        scheme \<in> {js ''http'', js ''https''} \<and> host \<in> {js ''drive'', js ''docs''}}"
proof (intro set_eqI iffI)
  fix w assume "w \<in> lang regex_host"
  then obtain z h where w: "w = js ''http'' @ z @ js ''://'' @ h @ js ''.google.com/''"
    "z \<in> {[], js ''s''}" "h \<in> {js ''drive'', js ''docs''}"
    unfolding regex_host_def lang_Seq_Lit lang_Seq_Opt_Lit lang_Seq_Alt_Lit lang.simps(1) by blast
  have "js ''http'' @ z \<in> {js ''http'', js ''https''}" using w(2) by (auto simp: js_def)
  moreover have "w = (js ''http'' @ z) @ js ''://'' @ h @ js ''.google.com/''" using w(1) by simp
  ultimately show "w \<in> {scheme @ js ''://'' @ host @ js ''.google.com/'' | scheme host.
        scheme \<in> {js ''http'', js ''https''} \<and> host \<in> {js ''drive'', js ''docs''}}"
    using w(3) by blast
next
  fix w assume "w \<in> {scheme @ js ''://'' @ host @ js ''.google.com/'' | scheme host.
        scheme \<in> {js ''http'', js ''https''} \<and> host \<in> {js ''drive'', js ''docs''}}"
  then obtain scheme host where w: "w = scheme @ js ''://'' @ host @ js ''.google.com/''"
    "scheme \<in> {js ''http'', js ''https''}" "host \<in> {js ''drive'', js ''docs''}" by blast
  from w(2) obtain z where z: "scheme = js ''http'' @ z" "z \<in> {[], js ''s''}"
    by (auto simp: js_def)
  have "w = js ''http'' @ z @ js ''://'' @ host @ js ''.google.com/''" using w(1) z(1) by simp
  then show "w \<in> lang regex_host"
    unfolding regex_host_def lang_Seq_Lit lang_Seq_Opt_Lit lang_Seq_Alt_Lit lang.simps(1)
    using z(2) w(3) by blast
qed

lemma lang_regex_segment:
  "lang regex_segment =
     {js ''/'' @ segment @ js ''/'' | segment. segment \<in> {js ''d'', js ''e'', js ''folders''}}"
  unfolding regex_segment_def lang_Seq_Lit lang_Seq_Alt3_Lit lang.simps(1) by blast

lemma lang_Star_Class_Class:
  "lang (Seq (Star (Class p)) (Class q)) = {mid @ [last] | mid last. list_all p mid \<and> q last}"
proof (intro set_eqI iffI)
  fix w assume "w \<in> lang (Seq (Star (Class p)) (Class q))"
  then obtain u v where "w = u @ v" "u \<in> lang (Star (Class p))" "v \<in> lang (Class q)"
    unfolding lang.simps(3) by blast
  then show "w \<in> {mid @ [last] | mid last. list_all p mid \<and> q last}"
    unfolding lang_Star_Class by auto
next
  fix w assume "w \<in> {mid @ [last] | mid last. list_all p mid \<and> q last}"
  then obtain mid last where "w = mid @ [last]" "mid \<in> lang (Star (Class p))" "[last] \<in> lang (Class q)"
    unfolding lang_Star_Class by auto
  then show "w \<in> lang (Seq (Star (Class p)) (Class q))" unfolding lang.simps(3) by blast
qed

lemma lang_regex_tail:
  "lang regex_tail =
     {rest. rest = [] \<or> (\<exists>mid last. rest = js ''/'' @ mid @ [last]
                               \<and> list_all notSeparator mid \<and> notTrailing last)}"
  unfolding regex_tail_def lang.simps(5) lang_Seq_Lit lang_Star_Class_Class by blast

lemma groupFree_regex_tail: "groupFree regex_tail"
  by (simp add: regex_tail_def)

lemma isDriveLink_parts:
  "isDriveLink link ident \<longleftrightarrow>
     (\<exists>w1 w2 w3 w5. link = w1 @ w2 @ w3 @ ident @ w5
        \<and> w1 \<in> lang regex_host \<and> w2 \<in> lang (Plus (Class notSeparator))
        \<and> w3 \<in> lang regex_segment \<and> ident \<in> lang (AtLeast 25 (Class idChar))
        \<and> w5 \<in> lang regex_tail)"
  (is "?l \<longleftrightarrow> ?r")
proof
  assume ?l
  then obtain scheme host path segment rest where
    l: "link = scheme @ js ''://'' @ host @ js ''.google.com/'' @ path
                 @ js ''/'' @ segment @ js ''/'' @ ident @ rest"
    and p: "scheme \<in> {js ''http'', js ''https''}" "host \<in> {js ''drive'', js ''docs''}"
       "path \<noteq> []" "list_all notSeparator path"
       "segment \<in> {js ''d'', js ''e'', js ''folders''}"
       "25 \<le> length ident" "list_all idChar ident"
       "rest = [] \<or> (\<exists>mid last. rest = js ''/'' @ mid @ [last]
                    \<and> list_all notSeparator mid \<and> notTrailing last)"
    unfolding isDriveLink_def by blast
  have 1: "scheme @ js ''://'' @ host @ js ''.google.com/'' \<in> lang regex_host"
    unfolding lang_regex_host using p(1,2) by blast
  have 2: "path \<in> lang (Plus (Class notSeparator))" using p(3,4) by (simp add: lang_Plus_Class)
  have 3: "js ''/'' @ segment @ js ''/'' \<in> lang regex_segment"
    unfolding lang_regex_segment using p(5) by blast
  have 4: "ident \<in> lang (AtLeast 25 (Class idChar))" using p(6,7) by (simp add: lang_AtLeast_Class)
  have 5: "rest \<in> lang regex_tail" unfolding lang_regex_tail using p(8) by blast
  have "link = (scheme @ js ''://'' @ host @ js ''.google.com/'') @ path
                 @ (js ''/'' @ segment @ js ''/'') @ ident @ rest"
    using l by simp
  then show ?r using 1 2 3 4 5 by blast
next
  assume ?r
  then obtain w1 w2 w3 w5 where l: "link = w1 @ w2 @ w3 @ ident @ w5"
    and 1: "w1 \<in> lang regex_host" and 2: "w2 \<in> lang (Plus (Class notSeparator))"
    and 3: "w3 \<in> lang regex_segment" and 4: "ident \<in> lang (AtLeast 25 (Class idChar))"
    and 5: "w5 \<in> lang regex_tail" by blast
  from 1 obtain scheme host where w1: "w1 = scheme @ js ''://'' @ host @ js ''.google.com/''"
    "scheme \<in> {js ''http'', js ''https''}" "host \<in> {js ''drive'', js ''docs''}"
    unfolding lang_regex_host by blast
  from 3 obtain segment where w3: "w3 = js ''/'' @ segment @ js ''/''"
    "segment \<in> {js ''d'', js ''e'', js ''folders''}"
    unfolding lang_regex_segment by blast
  have w2: "w2 \<noteq> []" "list_all notSeparator w2" using 2 by (simp_all add: lang_Plus_Class)
  have i: "25 \<le> length ident" "list_all idChar ident" using 4 by (simp_all add: lang_AtLeast_Class)
  have r: "w5 = [] \<or> (\<exists>mid last. w5 = js ''/'' @ mid @ [last]
                    \<and> list_all notSeparator mid \<and> notTrailing last)"
    using 5 unfolding lang_regex_tail by blast
  have "link = scheme @ js ''://'' @ host @ js ''.google.com/'' @ w2
                 @ js ''/'' @ segment @ js ''/'' @ ident @ w5"
    using l w1(1) w3(1) by simp
  then show ?l unfolding isDriveLink_def using w1(2,3) w2 w3(2) i r by blast
qed

lemma regex_match:
  assumes "(t, c') \<in> set (matches regex (s, c))"
  shows "\<exists>link ident. s = link @ t \<and> c' = Some ident \<and> isDriveLink link ident"
proof -
  from assms obtain t1 c1 t2 c2 t3 c3 t4 c4 where
    1: "(t1, c1) \<in> set (matches regex_host (s, c))" and
    2: "(t2, c2) \<in> set (matches (Plus (Class notSeparator)) (t1, c1))" and
    3: "(t3, c3) \<in> set (matches regex_segment (t2, c2))" and
    4: "(t4, c4) \<in> set (matches (Group (AtLeast 25 (Class idChar))) (t3, c3))" and
    5: "(t, c') \<in> set (matches regex_tail (t4, c4))"
    unfolding regex_def in_matches_Seq by blast
  from matches_sound[OF 1] obtain w1 where w1: "s = w1 @ t1" "w1 \<in> lang regex_host" by auto
  from matches_sound[OF 2] obtain w2 where w2: "t1 = w2 @ t2" "w2 \<in> lang (Plus (Class notSeparator))" by auto
  from matches_sound[OF 3] obtain w3 where w3: "t2 = w3 @ t3" "w3 \<in> lang regex_segment" by auto
  from matches_Group[OF 4] obtain w4 where w4: "t3 = w4 @ t4" "w4 \<in> lang (AtLeast 25 (Class idChar))"
    "c4 = Some w4" by auto
  from matches_sound[OF 5] obtain w5 where w5: "t4 = w5 @ t" "w5 \<in> lang regex_tail" by auto
  from matches_groupFree[OF groupFree_regex_tail 5] have c': "c' = Some w4" using w4(3) by simp
  have "isDriveLink (w1 @ w2 @ w3 @ w4 @ w5) w4"
    unfolding isDriveLink_parts using w1(2) w2(2) w3(2) w4(2) w5(2) by blast
  moreover have "s = (w1 @ w2 @ w3 @ w4 @ w5) @ t" using w1(1) w2(1) w3(1) w4(1) w5(1) by simp
  ultimately show ?thesis using c' by blast
qed

lemma regex_complete:
  assumes "isDriveLink link ident"
  shows "matches regex (link @ t, c) \<noteq> []"
proof -
  from assms obtain w1 w2 w3 w5 where l: "link = w1 @ w2 @ w3 @ ident @ w5"
    and 1: "w1 \<in> lang regex_host" and 2: "w2 \<in> lang (Plus (Class notSeparator))"
    and 3: "w3 \<in> lang regex_segment" and 4: "ident \<in> lang (AtLeast 25 (Class idChar))"
    and 5: "w5 \<in> lang regex_tail" unfolding isDriveLink_parts by blast
  have "link \<in> lang regex"
    unfolding regex_def l using 1 2 3 4 5 by (simp del: lang.simps(6)) blast
  from matches_complete[OF this, of t c] show ?thesis by auto
qed

lemma isDriveLink_nonempty: "isDriveLink link ident \<Longrightarrow> link \<noteq> []"
  unfolding isDriveLink_def by (auto simp: js_def)

lemma regex_no_match_iff:
  "matches regex (s, None) = [] \<longleftrightarrow> \<not> linkStartsAt s 0"
proof
  assume e: "matches regex (s, None) = []"
  show "\<not> linkStartsAt s 0"
  proof
    assume "linkStartsAt s 0"
    then obtain link ident t where "isDriveLink link ident" "s = link @ t"
      by (auto simp: linkStartsAt_def prefix_def)
    then show False using regex_complete[of link ident t None] e by simp
  qed
next
  assume n: "\<not> linkStartsAt s 0"
  show "matches regex (s, None) = []"
  proof (rule ccontr)
    assume "matches regex (s, None) \<noteq> []"
    then obtain t c' where "(t, c') \<in> set (matches regex (s, None))"
      by (cases "matches regex (s, None)") auto
    from regex_match[OF this] show False using n by (auto simp: linkStartsAt_def)
  qed
qed

subsection \<open>The successive matches\<close>

declare matchAll.simps [simp del]

lemma linkStartsAt_Cons: "linkStartsAt (u # s) (Suc p) = linkStartsAt s p"
  by (simp add: linkStartsAt_def)

lemma all_le_Suc_shift: "(\<forall>p\<le>Suc n. P p) \<longleftrightarrow> P 0 \<and> (\<forall>p\<le>n. P (Suc p))"
proof
  assume "\<forall>p\<le>Suc n. P p"
  then show "P 0 \<and> (\<forall>p\<le>n. P (Suc p))" by simp
next
  assume a: "P 0 \<and> (\<forall>p\<le>n. P (Suc p))"
  show "\<forall>p\<le>Suc n. P p"
  proof (intro allI impI)
    fix p assume "p \<le> Suc n"
    then show "P p" using a by (cases p) simp_all
  qed
qed

lemma matchAll_Nil_iff:
  "matchAll regex s = [] \<longleftrightarrow> (\<forall>p\<le>length s. \<not> linkStartsAt s p)"
proof (induction s)
  case Nil
  show ?case
    by (subst matchAll.simps) (auto simp: regex_no_match_iff[symmetric] split: list.splits)
next
  case (Cons u s)
  have "matchAll regex (u # s) = [] \<longleftrightarrow> matches regex (u # s, None) = [] \<and> matchAll regex s = []"
    by (subst matchAll.simps) (auto split: list.splits)
  also have "\<dots> \<longleftrightarrow> \<not> linkStartsAt (u # s) 0 \<and> (\<forall>p\<le>length s. \<not> linkStartsAt (u # s) (Suc p))"
    using Cons by (simp add: regex_no_match_iff linkStartsAt_Cons)
  also have "\<dots> \<longleftrightarrow> (\<forall>p\<le>length (u # s). \<not> linkStartsAt (u # s) p)"
    using all_le_Suc_shift[of "length s" "\<lambda>p. \<not> linkStartsAt (u # s) p"] by simp
  finally show ?case .
qed

lemma matchAll_empty: "matchAll regex [] = []"
  using matchAll_Nil_iff[of "[]"]
  by (auto simp: linkStartsAt_def prefix_def dest: isDriveLink_nonempty)

lemma matchAll_skip:
  assumes "matches regex (u # s, None) = []"
  shows "matchAll regex (u # s) = matchAll regex s"
  by (subst matchAll.simps) (simp add: assms)

lemma matchAll_hit:
  assumes "matches regex (s, None) = (t, c) # ms"
  shows "\<exists>link ident. s = link @ t \<and> c = Some ident \<and> isDriveLink link ident
           \<and> matchAll regex s = (link, Some ident) # matchAll regex t"
proof -
  have "(t, c) \<in> set (matches regex (s, None))" using assms by simp
  from regex_match[OF this] obtain link ident where
    l: "s = link @ t" "c = Some ident" "isDriveLink link ident" by blast
  have ne: "link \<noteq> []" using l(3) by (rule isDriveLink_nonempty)
  have len: "length t < length s" using l(1) ne by simp
  have tk: "take (length s - length t) s = link" using l(1) by simp
  have "matchAll regex s = (link, Some ident) # matchAll regex t"
    by (subst matchAll.simps) (simp add: assms len tk l(2))
  then show ?thesis using l by blast
qed

lemma matchAll_Cons:
  "matchAll regex s = (m, c) # rest \<Longrightarrow>
     \<exists>g t ident. s = g @ m @ t \<and> c = Some ident \<and> isDriveLink m ident
        \<and> rest = matchAll regex t \<and> (\<forall>p<length g. \<not> linkStartsAt s p)"
proof (induction s)
  case Nil
  then show ?case by (simp add: matchAll_empty)
next
  case (Cons u s)
  show ?case
  proof (cases "matches regex (u # s, None)")
    case Nil
    then have "matchAll regex s = (m, c) # rest" using Cons.prems by (simp add: matchAll_skip)
    from Cons.IH[OF this] obtain g t ident where
      h: "s = g @ m @ t" "c = Some ident" "isDriveLink m ident" "rest = matchAll regex t"
         "\<forall>p<length g. \<not> linkStartsAt s p" by blast
    have 0: "\<not> linkStartsAt (u # s) 0" using Nil by (simp add: regex_no_match_iff)
    have "\<forall>p<length (u # g). \<not> linkStartsAt (u # s) p"
    proof (intro allI impI)
      fix p assume "p < length (u # g)"
      then show "\<not> linkStartsAt (u # s) p" using 0 h(5) by (cases p) (simp_all add: linkStartsAt_Cons)
    qed
    moreover have "u # s = (u # g) @ m @ t" using h(1) by simp
    ultimately show ?thesis using h(2,3,4) by blast
  next
    case (Cons a ms)
    obtain t c0 where a: "a = (t, c0)" by (cases a)
    from matchAll_hit[OF Cons[unfolded a]] obtain link ident where
      l: "u # s = link @ t" "c0 = Some ident" "isDriveLink link ident"
         "matchAll regex (u # s) = (link, Some ident) # matchAll regex t" by blast
    have "m = link" "c = Some ident" "rest = matchAll regex t" using l(4) Cons.prems by simp_all
    moreover have "u # s = [] @ link @ t" using l(1) by simp
    ultimately show ?thesis using l(3) by (metis list.size(3) not_less_zero)
  qed
qed

lemma matchAll_links:
  "(m, c) \<in> set (matchAll regex s) \<Longrightarrow> \<exists>ident. c = Some ident \<and> isDriveLink m ident"
proof (induction "length s" arbitrary: s rule: less_induct)
  case less
  show ?case
  proof (cases "matchAll regex s")
    case Nil
    then show ?thesis using less.prems by simp
  next
    case (Cons a rest)
    obtain m0 c0 where a: "a = (m0, c0)" by (cases a)
    from matchAll_Cons[OF Cons[unfolded a]] obtain g t ident where
      h: "s = g @ m0 @ t" "c0 = Some ident" "isDriveLink m0 ident" "rest = matchAll regex t" by blast
    have "m0 \<noteq> []" using h(3) by (rule isDriveLink_nonempty)
    then have len: "length t < length s" using h(1) by simp
    from less.prems Cons a have "(m, c) = (m0, c0) \<or> (m, c) \<in> set (matchAll regex t)"
      using h(4) by auto
    then show ?thesis
    proof
      assume "(m, c) = (m0, c0)"
      then show ?thesis using h(2,3) by simp
    next
      assume "(m, c) \<in> set (matchAll regex t)"
      then show ?thesis using less.hyps[OF len] by blast
    qed
  qed
qed

lemma extractFileIds_links:
  "r \<in> set (extractFileIds cont) \<Longrightarrow> isDriveLink (url r) (fileId r)"
proof -
  assume "r \<in> set (extractFileIds cont)"
  then obtain m c where mc: "(m, c) \<in> set (matchAll regex cont)"
    "r = \<lparr>url = m, fileId = (case c of Some i \<Rightarrow> i | None \<Rightarrow> [])\<rparr>"
    unfolding extractFileIds_def by auto
  from matchAll_links[OF mc(1)] obtain ident where "c = Some ident" "isDriveLink m ident" by blast
  then show ?thesis using mc(2) by simp
qed

lemma extractFileIds_Nil_iff:
  "extractFileIds cont = [] \<longleftrightarrow> (\<forall>p\<le>length cont. \<not> linkStartsAt cont p)"
  unfolding extractFileIds_def using matchAll_Nil_iff[of cont] by simp

lemma extractFileIds_Cons:
  assumes "extractFileIds cont = r # rs"
  shows "\<exists>g t. cont = g @ url r @ t \<and> isDriveLink (url r) (fileId r)
            \<and> rs = extractFileIds t \<and> (\<forall>p<length g. \<not> linkStartsAt cont p)"
proof -
  from assms obtain a rest where c: "matchAll regex cont = a # rest"
    unfolding extractFileIds_def by (cases "matchAll regex cont") auto
  obtain m c0 where a: "a = (m, c0)" by (cases a)
  from matchAll_Cons[OF c[unfolded a]] obtain g t ident where
    h: "cont = g @ m @ t" "c0 = Some ident" "isDriveLink m ident" "rest = matchAll regex t"
       "\<forall>p<length g. \<not> linkStartsAt cont p" by blast
  have "r = \<lparr>url = m, fileId = ident\<rparr>" "rs = extractFileIds t"
    using assms c a h(2,4) unfolding extractFileIds_def by simp_all
  then show ?thesis using h(1,3,5) by auto
qed


subsection \<open>The link that the matcher takes\<close>

lemma linkParts_lang:
  "linkParts origin path segment ident rest \<longleftrightarrow>
     origin \<in> lang regex_host \<and> path \<in> lang (Plus (Class notSeparator))
     \<and> segment \<in> lang regex_segment \<and> ident \<in> lang (AtLeast 25 (Class idChar))
     \<and> rest \<in> lang regex_tail"
  unfolding linkParts_def lang_regex_host lang_Plus_Class lang_regex_segment lang_AtLeast_Class
    lang_regex_tail
  by blast

lemma isDriveLink_linkParts:
  "isDriveLink link ident \<longleftrightarrow>
     (\<exists>origin path segment rest. link = origin @ path @ segment @ ident @ rest
        \<and> linkParts origin path segment ident rest)"
  unfolding isDriveLink_parts linkParts_lang by blast

lemma origin_unique:
  assumes "a \<in> lang regex_host" "b \<in> lang regex_host" "a @ x = b @ y"
  shows "a = b"
  using assms unfolding lang_regex_host by (auto simp: js_def)

lemma segment_unique:
  assumes "a \<in> lang regex_segment" "b \<in> lang regex_segment" "a @ x = b @ y"
  shows "a = b"
  using assms unfolding lang_regex_segment by (auto simp: js_def)

lemma matches_left:
  assumes "(t, c') \<in> set (matches r (s, c))"
  shows "length t \<le> length s"
  using matches_sound[OF assms] by auto

lemma star_class_unfold:
  "matches (Star (Class p)) (s, c) =
     (case s of [] \<Rightarrow> [(s, c)]
      | u # s' \<Rightarrow> if p u then matches (Star (Class p)) (s', c) @ [(s, c)] else [(s, c)])"
  by (subst matches.simps(6)) (simp add: matches.simps(2) split: list.splits)

lemma seq_class_unfold:
  "matches (Seq (Class p) r) (s, c) =
     (case s of [] \<Rightarrow> [] | u # s' \<Rightarrow> if p u then matches r (s', c) else [])"
  by (simp add: matches.simps(3) matches.simps(2) split: list.splits)

lemma seq_lit_unfold:
  "matches (Seq (Lit w) r) (s, c) = (if prefix w s then matches r (drop (length w) s, c) else [])"
  by (simp add: matches.simps(3) matches.simps(1))

lemma star_class_sorted: "sorted_wrt lessLeft (matches (Star (Class p)) (s, c))"
proof (induction s)
  case Nil
  show ?case by (subst star_class_unfold) simp
next
  case (Cons u s)
  have "lessLeft a (u # s, c)" if "a \<in> set (matches (Star (Class p)) (s, c))" for a
  proof -
    obtain t c' where a: "a = (t, c')" by (cases a)
    from matches_left[OF that[unfolded a]] show ?thesis by (simp add: a lessLeft_def)
  qed
  then show ?case using Cons by (subst star_class_unfold) (simp add: sorted_wrt_append)
qed

lemma plus_class_sorted: "sorted_wrt lessLeft (matches (Plus (Class p)) (s, c))"
  unfolding Plus_def seq_class_unfold by (simp add: star_class_sorted split: list.splits)

lemma atLeast_class_sorted: "sorted_wrt lessLeft (matches (AtLeast n (Class p)) (s, c))"
proof (induction n arbitrary: s)
  case 0
  show ?case by (simp add: star_class_sorted)
next
  case (Suc n)
  show ?case unfolding AtLeast.simps seq_class_unfold by (simp add: Suc split: list.splits)
qed

lemma group_sorted:
  "sorted_wrt lessLeft (matches a (s, c)) \<Longrightarrow> sorted_wrt lessLeft (matches (Group a) (s, c))"
proof -
  assume a: "sorted_wrt lessLeft (matches a (s, c))"
  have l: "lessLeft = (\<lambda>x y. length (fst x) < length (fst y))"
    by (intro ext) (simp add: lessLeft_def)
  show ?thesis using a unfolding l by (simp add: matches.simps(7) sorted_wrt_map case_prod_beta)
qed

lemma class_after_sorted:
  "sorted_wrt lessLeft xs \<Longrightarrow> sorted_wrt lessLeft (concat (map (matches (Class q)) xs))"
proof (induction xs)
  case Nil
  show ?case by simp
next
  case (Cons x xs)
  obtain t c where x: "x = (t, c)" by (cases x)
  have "lessLeft a b"
    if a: "a \<in> set (matches (Class q) x)" and b: "b \<in> set (concat (map (matches (Class q)) xs))"
    for a b
  proof -
    from b obtain y where y: "y \<in> set xs" "b \<in> set (matches (Class q) y)" by auto
    obtain t' c' where y': "y = (t', c')" by (cases y)
    obtain ta ca where a': "a = (ta, ca)" by (cases a)
    obtain tb cb where b': "b = (tb, cb)" by (cases b)
    from a have 1: "length t = Suc (length ta)" unfolding x a' by (auto simp: in_matches_Class)
    from y(2) have 2: "length t' = Suc (length tb)" unfolding y' b' by (auto simp: in_matches_Class)
    from Cons.prems y(1) have "lessLeft x y" by simp
    then show ?thesis using 1 2 by (simp add: lessLeft_def x y' a' b')
  qed
  moreover have "sorted_wrt lessLeft (matches (Class q) x)"
    unfolding x by (simp add: matches.simps(2) split: list.splits)
  ultimately show ?case using Cons by (simp add: sorted_wrt_append)
qed

lemma tail_sorted: "sorted_wrt lessLeft (matches regex_tail (s, c))"
proof -
  let ?X = "Seq (Lit (js ''/'')) (Seq (Star (Class notSeparator)) (Class notTrailing))"
  have inner: "sorted_wrt lessLeft (matches (Seq (Star (Class notSeparator)) (Class notTrailing)) st)"
    for st
  proof -
    obtain s' c' where st: "st = (s', c')" by (cases st)
    show ?thesis unfolding st matches.simps(3)
      by (rule class_after_sorted) (rule star_class_sorted)
  qed
  have X: "sorted_wrt lessLeft (matches ?X (s, c))"
    unfolding seq_lit_unfold by (simp add: inner)
  have "lessLeft a (s, c)" if "a \<in> set (matches ?X (s, c))" for a
  proof -
    obtain t c' where a: "a = (t, c')" by (cases a)
    from matches_sound[OF that[unfolded a]] have "\<exists>w. s = w @ t \<and> w \<in> lang ?X"
      by (simp only: fst_conv)
    then obtain w where w: "s = w @ t" "w \<in> lang ?X" by blast
    from w(2) have "w \<noteq> []" unfolding lang_Seq_Lit by (auto simp: js_def)
    then show ?thesis using w(1) by (simp add: a lessLeft_def)
  qed
  then show ?thesis
    unfolding regex_tail_def matches.simps(5) using X by (simp add: sorted_wrt_append)
qed

lemma concat_map_first:
  "concat (map f xs) = y # ys \<Longrightarrow>
   \<exists>pre x post ys'. xs = pre @ x # post \<and> (\<forall>z\<in>set pre. f z = []) \<and> f x = y # ys'"
proof (induction xs)
  case Nil
  then show ?case by simp
next
  case (Cons x xs)
  show ?case
  proof (cases "f x")
    case Nil
    then have "concat (map f xs) = y # ys" using Cons.prems by simp
    from Cons.IH[OF this] obtain pre x' post ys' where
      "xs = pre @ x' # post" "\<forall>z\<in>set pre. f z = []" "f x' = y # ys'" by blast
    then have "x # xs = (x # pre) @ x' # post \<and> (\<forall>z\<in>set (x # pre). f z = []) \<and> f x' = y # ys'"
      using Nil by simp
    then show ?thesis by blast
  next
    case (Cons a as)
    then have "f x = y # as" using Cons.prems by simp
    then have "x # xs = [] @ x # xs \<and> (\<forall>z\<in>set []. f z = []) \<and> f x = y # as" by simp
    then show ?thesis by blast
  qed
qed

lemma sorted_after:
  assumes "sorted_wrt lessLeft (pre @ x # post)" "y \<in> set (pre @ x # post)" "y \<notin> set pre"
  shows "length (fst x) \<le> length (fst y)"
proof -
  from assms(2,3) have "y = x \<or> y \<in> set post" by auto
  then show ?thesis using assms(1) by (auto simp: sorted_wrt_append lessLeft_def)
qed

lemma groupFree_pieces:
  "groupFree regex_host" "groupFree (Plus (Class notSeparator))" "groupFree regex_segment"
  by (simp_all add: regex_host_def Plus_def regex_segment_def)

lemma complete_groupFree:
  assumes "groupFree r" "w \<in> lang r"
  shows "(t, c) \<in> set (matches r (w @ t, c))"
proof -
  from matches_complete[OF assms(2), of t c] obtain c' where
    m: "(t, c') \<in> set (matches r (w @ t, c))" by blast
  from matches_groupFree[OF assms(1) m] show ?thesis using m by simp
qed

lemma complete_Group:
  assumes "w \<in> lang a"
  shows "(t, Some w) \<in> set (matches (Group a) (w @ t, c))"
proof -
  from matches_complete[OF assms, of t c] obtain c' where
    "(t, c') \<in> set (matches a (w @ t, c))" by blast
  then show ?thesis by (auto simp: in_matches_Group)
qed

lemma sound_groupFree:
  assumes "groupFree r" "(t, c') \<in> set (matches r (s, c))"
  shows "c' = c \<and> (\<exists>w. s = w @ t \<and> w \<in> lang r)"
  using matches_groupFree[OF assms] matches_sound[OF assms(2)] by simp

lemma tail_nonempty: "matches regex_tail st \<noteq> []"
  by (simp add: regex_tail_def matches.simps(5))

lemma regex_first:
  assumes m: "matches regex (s, None) = (t, c) # ms"
  shows "\<exists>link ident. s = link @ t \<and> c = Some ident \<and> firstChoice s link ident"
proof -
  let ?plus = "Plus (Class notSeparator)"
  let ?grp = "Group (AtLeast 25 (Class idChar))"
  let ?R3 = "Seq ?grp regex_tail"
  let ?R2 = "Seq regex_segment ?R3"
  let ?R1 = "Seq ?plus ?R2"
  have m1: "concat (map (matches ?R1) (matches regex_host (s, None))) = (t, c) # ms"
    using m by (simp add: regex_def matches.simps(3))
  from concat_map_first[OF m1] obtain pre1 x1 post1 ms1 where
    h1: "matches regex_host (s, None) = pre1 @ x1 # post1" "matches ?R1 x1 = (t, c) # ms1"
    by blast
  obtain s1 c1 where x1: "x1 = (s1, c1)" by (cases x1)
  have "(s1, c1) \<in> set (matches regex_host (s, None))" unfolding h1(1) x1 by simp
  from sound_groupFree[OF groupFree_pieces(1) this] obtain origin where
    c1: "c1 = None" and o: "s = origin @ s1" "origin \<in> lang regex_host" by blast
  have m2: "concat (map (matches ?R2) (matches ?plus (s1, None))) = (t, c) # ms1"
    using h1(2) unfolding x1 c1 by (simp add: matches.simps(3))
  from concat_map_first[OF m2] obtain pre2 x2 post2 ms2 where
    h2: "matches ?plus (s1, None) = pre2 @ x2 # post2" "\<forall>z\<in>set pre2. matches ?R2 z = []"
        "matches ?R2 x2 = (t, c) # ms2"
    by blast
  obtain s2 c2 where x2: "x2 = (s2, c2)" by (cases x2)
  have "(s2, c2) \<in> set (matches ?plus (s1, None))" unfolding h2(1) x2 by simp
  from sound_groupFree[OF groupFree_pieces(2) this] obtain path where
    c2: "c2 = None" and p: "s1 = path @ s2" "path \<in> lang ?plus" by blast
  have m3: "concat (map (matches ?R3) (matches regex_segment (s2, None))) = (t, c) # ms2"
    using h2(3) unfolding x2 c2 by (simp add: matches.simps(3))
  from concat_map_first[OF m3] obtain pre3 x3 post3 ms3 where
    h3: "matches regex_segment (s2, None) = pre3 @ x3 # post3" "matches ?R3 x3 = (t, c) # ms3"
    by blast
  obtain s3 c3 where x3: "x3 = (s3, c3)" by (cases x3)
  have "(s3, c3) \<in> set (matches regex_segment (s2, None))" unfolding h3(1) x3 by simp
  from sound_groupFree[OF groupFree_pieces(3) this] obtain segment where
    c3: "c3 = None" and g: "s2 = segment @ s3" "segment \<in> lang regex_segment" by blast
  have m4: "concat (map (matches regex_tail) (matches ?grp (s3, None))) = (t, c) # ms3"
    using h3(2) unfolding x3 c3 by (simp add: matches.simps(3))
  from concat_map_first[OF m4] obtain pre4 x4 post4 ms4 where
    h4: "matches ?grp (s3, None) = pre4 @ x4 # post4" "\<forall>z\<in>set pre4. matches regex_tail z = []"
        "matches regex_tail x4 = (t, c) # ms4"
    by blast
  have pre4: "pre4 = []" using h4(2) tail_nonempty by (cases pre4) auto
  obtain s4 c4 where x4: "x4 = (s4, c4)" by (cases x4)
  have "(s4, c4) \<in> set (matches ?grp (s3, None))" unfolding h4(1) x4 by simp
  from matches_Group[OF this] obtain ident where
    i: "s3 = ident @ s4" "ident \<in> lang (AtLeast 25 (Class idChar))" "c4 = Some ident" by blast
  have "(t, c) \<in> set (matches regex_tail (s4, Some ident))"
    using h4(3) unfolding x4 i(3) by simp
  from sound_groupFree[OF groupFree_regex_tail this] obtain rest where
    c: "c = Some ident" and r: "s4 = rest @ t" "rest \<in> lang regex_tail" by blast
  let ?link = "origin @ path @ segment @ ident @ rest"
  have s: "s = ?link @ t" using o(1) p(1) g(1) i(1) r(1) by simp
  have parts: "linkParts origin path segment ident rest"
    unfolding linkParts_lang using o(2) p(2) g(2) i(2) r(2) by simp
  have best: "length path' < length path
                  \<or> (length path' = length path
                      \<and> (length ident' < length ident
                          \<or> (length ident' = length ident \<and> length rest' \<le> length rest)))"
    if lp: "linkParts origin' path' segment' ident' rest'"
    and pf: "prefix (origin' @ path' @ segment' @ ident' @ rest') s"
    for origin' path' segment' ident' rest'
  proof -
    from lp have l: "origin' \<in> lang regex_host" "path' \<in> lang ?plus"
      "segment' \<in> lang regex_segment" "ident' \<in> lang (AtLeast 25 (Class idChar))"
      "rest' \<in> lang regex_tail" unfolding linkParts_lang by simp_all
    from pf obtain t' where t': "s = origin' @ path' @ segment' @ ident' @ rest' @ t'"
      by (auto simp: prefix_def)
    have oo: "origin' = origin" using origin_unique[OF l(1) o(2)] t' o(1) by metis
    then have s1': "s1 = path' @ segment' @ ident' @ rest' @ t'" using t' o(1) by simp
    let ?s2' = "segment' @ ident' @ rest' @ t'"
    have in2: "(?s2', None) \<in> set (matches ?plus (s1, None))"
      unfolding s1' by (rule complete_groupFree[OF groupFree_pieces(2) l(2)])
    have "segment' @ ident' @ rest' \<in> lang ?R2"
      using l(3,4,5) by (simp del: lang.simps(6)) blast
    from matches_complete[OF this, of t' None] have "matches ?R2 (?s2', None) \<noteq> []" by auto
    then have "(?s2', None) \<notin> set pre2" using h2(2) by blast
    from sorted_after[OF plus_class_sorted[of notSeparator s1 None, unfolded h2(1)]
           in2[unfolded h2(1)] this]
    have "length s2 \<le> length ?s2'" by (simp add: x2)
    then have le_path: "length path' \<le> length path" using s1' p(1) by (metis add_le_cancel_right length_append le_refl add.commute nat_add_left_cancel_le)
    show ?thesis
    proof (cases "length path' = length path")
      case False
      then show ?thesis using le_path by simp
    next
      case True
      then have pp: "path' = path" "?s2' = s2" using s1' p(1) by auto
      have gg: "segment' = segment" using segment_unique[OF l(3) g(2)] pp(2) g(1) by metis
      then have s3': "s3 = ident' @ rest' @ t'" using pp(2) g(1) by simp
      have in4: "(rest' @ t', Some ident') \<in> set (matches ?grp (s3, None))"
        unfolding s3' by (rule complete_Group[OF l(4)])
      have srt4: "sorted_wrt lessLeft ([] @ x4 # post4)"
        using group_sorted[OF atLeast_class_sorted[of 25 idChar s3 None]] h4(1) pre4 by simp
      have "(rest' @ t', Some ident') \<in> set ([] @ x4 # post4)" using in4 h4(1) pre4 by simp
      from sorted_after[OF srt4 this] have "length s4 \<le> length (rest' @ t')" by (simp add: x4)
      then have le_id: "length ident' \<le> length ident" using s3' i(1)
        by (metis add_le_cancel_right length_append le_refl add.commute nat_add_left_cancel_le)
      show ?thesis
      proof (cases "length ident' = length ident")
        case False
        then show ?thesis using le_id True by simp
      next
        case ie: True
        then have ii: "ident' = ident" "rest' @ t' = s4" using s3' i(1) by auto
        have in5: "(t', Some ident) \<in> set (matches regex_tail (s4, Some ident))"
          unfolding ii(2)[symmetric] by (rule complete_groupFree[OF groupFree_regex_tail l(5)])
        have srt5: "sorted_wrt lessLeft ([] @ (t, c) # ms4)"
          using tail_sorted[of s4 "Some ident"] h4(3) unfolding x4 i(3) by simp
        have "(t', Some ident) \<in> set ([] @ (t, c) # ms4)"
          using in5 h4(3) unfolding x4 i(3) by simp
        from sorted_after[OF srt5 this] have "length t \<le> length t'" by simp
        then have "length rest' \<le> length rest" using ii(2) r(1)
          by (metis add_le_cancel_left length_append le_refl add.commute nat_add_left_cancel_le)
        then show ?thesis using True ie by simp
      qed
    qed
  qed
  have pf: "prefix ?link s" using s by (simp add: prefix_def)
  have all: "\<forall>origin' path' segment' ident' rest'.
              linkParts origin' path' segment' ident' rest'
              \<and> prefix (origin' @ path' @ segment' @ ident' @ rest') s
              \<longrightarrow> length path' < length path
                  \<or> (length path' = length path
                      \<and> (length ident' < length ident
                          \<or> (length ident' = length ident \<and> length rest' \<le> length rest)))"
    using best by blast
  have "firstChoice s ?link ident"
    unfolding firstChoice_def
    by (rule exI[of _ origin], rule exI[of _ path], rule exI[of _ segment], rule exI[of _ rest])
       (intro conjI refl pf parts all)
  then show ?thesis using s c by blast
qed

lemma firstChoice_link: "firstChoice s link ident \<Longrightarrow> isDriveLink link ident \<and> prefix link s"
  unfolding firstChoice_def isDriveLink_linkParts by blast

lemma firstChoice_unique:
  assumes a: "firstChoice s link ident" and b: "firstChoice s link' ident'"
  shows "link = link' \<and> ident = ident'"
proof -
  from a obtain origin path segment rest where
    l: "link = origin @ path @ segment @ ident @ rest" "prefix link s"
       "linkParts origin path segment ident rest"
    and best: "\<And>a p g i r. linkParts a p g i r \<Longrightarrow> prefix (a @ p @ g @ i @ r) s \<Longrightarrow>
              length p < length path
              \<or> (length p = length path
                  \<and> (length i < length ident \<or> (length i = length ident \<and> length r \<le> length rest)))"
    unfolding firstChoice_def by blast
  from b obtain origin' path' segment' rest' where
    l': "link' = origin' @ path' @ segment' @ ident' @ rest'" "prefix link' s"
        "linkParts origin' path' segment' ident' rest'"
    and best': "\<And>a p g i r. linkParts a p g i r \<Longrightarrow> prefix (a @ p @ g @ i @ r) s \<Longrightarrow>
              length p < length path'
              \<or> (length p = length path'
                  \<and> (length i < length ident' \<or> (length i = length ident' \<and> length r \<le> length rest')))"
    unfolding firstChoice_def by blast
  from best[OF l'(3) l'(2)[unfolded l'(1)]] best'[OF l(3) l(2)[unfolded l(1)]]
  have len: "length path' = length path" "length ident' = length ident" "length rest' = length rest"
    by auto
  from l(2) obtain t where t: "s = origin @ path @ segment @ ident @ rest @ t"
    unfolding l(1) by (auto simp: prefix_def)
  from l'(2) obtain t' where t': "s = origin' @ path' @ segment' @ ident' @ rest' @ t'"
    unfolding l'(1) by (auto simp: prefix_def)
  from l(3) l'(3) have lg: "origin \<in> lang regex_host" "origin' \<in> lang regex_host"
    "segment \<in> lang regex_segment" "segment' \<in> lang regex_segment"
    unfolding linkParts_lang by simp_all
  have oo: "origin' = origin" using origin_unique[OF lg(2) lg(1)] t t' by metis
  have 1: "path @ segment @ ident @ rest @ t = path' @ segment' @ ident' @ rest' @ t'"
    using t t' oo by simp
  then have pp: "path' = path" and 2: "segment @ ident @ rest @ t = segment' @ ident' @ rest' @ t'"
    using len(1) by auto
  have gg: "segment' = segment" using segment_unique[OF lg(4) lg(3)] 2 by metis
  have 3: "ident @ rest @ t = ident' @ rest' @ t'" using 2 gg by simp
  then have ii: "ident' = ident" and 4: "rest @ t = rest' @ t'" using len(2) by auto
  have rr: "rest' = rest" using 4 len(3) by auto
  show ?thesis unfolding l(1) l'(1) using oo pp gg ii rr by simp
qed

lemma matchAll_first:
  assumes "matches regex (s, None) = (t, c) # ms"
  shows "\<exists>link ident. s = link @ t \<and> c = Some ident \<and> firstChoice s link ident
           \<and> matchAll regex s = (link, Some ident) # matchAll regex t"
proof -
  from regex_first[OF assms] obtain link ident where
    l: "s = link @ t" "c = Some ident" "firstChoice s link ident" by blast
  have ne: "link \<noteq> []" using firstChoice_link[OF l(3)] isDriveLink_nonempty by blast
  have len: "length t < length s" using l(1) ne by simp
  have tk: "take (length s - length t) s = link" using l(1) by simp
  have "matchAll regex s = (link, Some ident) # matchAll regex t"
    by (subst matchAll.simps) (simp add: assms len tk l(2))
  then show ?thesis using l by blast
qed

lemma matchAll_Cons_first:
  "matchAll regex s = (m, c) # rest \<Longrightarrow>
     \<exists>g t ident. s = g @ m @ t \<and> c = Some ident \<and> firstChoice (m @ t) m ident
        \<and> rest = matchAll regex t \<and> (\<forall>p<length g. \<not> linkStartsAt s p)"
proof (induction s)
  case Nil
  then show ?case by (simp add: matchAll_empty)
next
  case (Cons u s)
  show ?case
  proof (cases "matches regex (u # s, None)")
    case Nil
    then have "matchAll regex s = (m, c) # rest" using Cons.prems by (simp add: matchAll_skip)
    from Cons.IH[OF this] obtain g t ident where
      h: "s = g @ m @ t" "c = Some ident" "firstChoice (m @ t) m ident" "rest = matchAll regex t"
         "\<forall>p<length g. \<not> linkStartsAt s p" by blast
    have 0: "\<not> linkStartsAt (u # s) 0" using Nil by (simp add: regex_no_match_iff)
    have "\<forall>p<length (u # g). \<not> linkStartsAt (u # s) p"
    proof (intro allI impI)
      fix p assume "p < length (u # g)"
      then show "\<not> linkStartsAt (u # s) p" using 0 h(5) by (cases p) (simp_all add: linkStartsAt_Cons)
    qed
    moreover have "u # s = (u # g) @ m @ t" using h(1) by simp
    ultimately show ?thesis using h(2,3,4) by blast
  next
    case (Cons a ms)
    obtain t c0 where a: "a = (t, c0)" by (cases a)
    from matchAll_first[OF Cons[unfolded a]] obtain link ident where
      l: "u # s = link @ t" "c0 = Some ident" "firstChoice (u # s) link ident"
         "matchAll regex (u # s) = (link, Some ident) # matchAll regex t" by blast
    have e: "m = link" "c = Some ident" "rest = matchAll regex t" using l(4) Cons.prems by simp_all
    have "u # s = [] @ m @ t \<and> c = Some ident \<and> firstChoice (m @ t) m ident
            \<and> rest = matchAll regex t \<and> (\<forall>p<length ([] :: jsstring). \<not> linkStartsAt (u # s) p)"
      using l(1,3) e by simp
    then show ?thesis by blast
  qed
qed

lemma extractFileIds_Cons_first:
  assumes "extractFileIds cont = r # rs"
  shows "\<exists>g t. cont = g @ url r @ t \<and> (\<forall>p<length g. \<not> linkStartsAt cont p)
            \<and> firstChoice (url r @ t) (url r) (fileId r) \<and> rs = extractFileIds t"
proof -
  from assms obtain a rest where c: "matchAll regex cont = a # rest"
    unfolding extractFileIds_def by (cases "matchAll regex cont") auto
  obtain m c0 where a: "a = (m, c0)" by (cases a)
  from matchAll_Cons_first[OF c[unfolded a]] obtain g t ident where
    h: "cont = g @ m @ t" "c0 = Some ident" "firstChoice (m @ t) m ident" "rest = matchAll regex t"
       "\<forall>p<length g. \<not> linkStartsAt cont p" by blast
  have "r = \<lparr>url = m, fileId = ident\<rparr>" "rs = extractFileIds t"
    using assms c a h(2,4) unfolding extractFileIds_def by simp_all
  then show ?thesis using h(1,3,5) by auto
qed

lemma extractFileIds_Cons_iff:
  "extractFileIds cont = r # rs \<longleftrightarrow>
     (\<exists>g t. cont = g @ url r @ t \<and> (\<forall>p<length g. \<not> linkStartsAt cont p)
            \<and> firstChoice (url r @ t) (url r) (fileId r) \<and> rs = extractFileIds t)"
proof
  assume "extractFileIds cont = r # rs"
  then show "\<exists>g t. cont = g @ url r @ t \<and> (\<forall>p<length g. \<not> linkStartsAt cont p)
            \<and> firstChoice (url r @ t) (url r) (fileId r) \<and> rs = extractFileIds t"
    by (rule extractFileIds_Cons_first)
next
  assume "\<exists>g t. cont = g @ url r @ t \<and> (\<forall>p<length g. \<not> linkStartsAt cont p)
            \<and> firstChoice (url r @ t) (url r) (fileId r) \<and> rs = extractFileIds t"
  then obtain g t where
    h: "cont = g @ url r @ t" "\<forall>p<length g. \<not> linkStartsAt cont p"
       "firstChoice (url r @ t) (url r) (fileId r)" "rs = extractFileIds t" by blast
  have here: "linkStartsAt cont (length g)"
    unfolding linkStartsAt_def h(1) using firstChoice_link[OF h(3)] by auto
  have "length g \<le> length cont" using h(1) by simp
  then have "extractFileIds cont \<noteq> []" using here extractFileIds_Nil_iff[of cont] by blast
  then obtain r0 rs0 where e: "extractFileIds cont = r0 # rs0" by (cases "extractFileIds cont") auto
  from extractFileIds_Cons_first[OF e] obtain g0 t0 where
    h0: "cont = g0 @ url r0 @ t0" "\<forall>p<length g0. \<not> linkStartsAt cont p"
        "firstChoice (url r0 @ t0) (url r0) (fileId r0)" "rs0 = extractFileIds t0" by blast
  have here0: "linkStartsAt cont (length g0)"
    unfolding linkStartsAt_def h0(1) using firstChoice_link[OF h0(3)] by auto
  have "length g = length g0" using h(2) h0(2) here here0 by (meson linorder_neqE_nat)
  then have gg: "g = g0" and same: "url r @ t = url r0 @ t0" using h(1) h0(1) by auto
  from firstChoice_unique[OF h(3) h0(3)[folded same]]
  have u: "url r = url r0" "fileId r = fileId r0" by simp_all
  then have "r = r0" by simp
  moreover have "t = t0" using same u(1) by simp
  ultimately show "extractFileIds cont = r # rs" using e h(4) h0(4) by simp
qed

lemma isDriveLink_view:
  "isDriveLink (js ''https://drive.google.com/file/d/1aB2cD3eF4gH5iJ6kL7mN8oP9q/view'')
     (js ''1aB2cD3eF4gH5iJ6kL7mN8oP9q'')"
  using extractFileIds_links[of "\<lparr>url = js ''https://drive.google.com/file/d/1aB2cD3eF4gH5iJ6kL7mN8oP9q/view'',
       fileId = js ''1aB2cD3eF4gH5iJ6kL7mN8oP9q''\<rparr>" "content linkSource"]
  by (simp add: extractFileIds_linkSource)

lemma isDriveLink_edit:
  "isDriveLink (js ''https://docs.google.com/document/d/0B_abcdefghijklmnopqrstuvwx-yz/edit'')
     (js ''0B_abcdefghijklmnopqrstuvwx-yz'')"
proof -
  have "js ''https://docs.google.com/document/d/0B_abcdefghijklmnopqrstuvwx-yz/edit''
          = js ''https'' @ js ''://'' @ js ''docs'' @ js ''.google.com/'' @ js ''document''
              @ js ''/'' @ js ''d'' @ js ''/'' @ js ''0B_abcdefghijklmnopqrstuvwx-yz''
              @ (js ''/'' @ js ''edi'' @ [0x74])"
    by (simp add: js_def)
  moreover have "js ''document'' \<noteq> []" "list_all notSeparator (js ''document'')"
    "25 \<le> length (js ''0B_abcdefghijklmnopqrstuvwx-yz'')"
    "list_all idChar (js ''0B_abcdefghijklmnopqrstuvwx-yz'')"
    "list_all notSeparator (js ''edi'')" "notTrailing 0x74"
    by (simp_all add: js_def notSeparator_def notTrailing_def idChar_def isWhiteSpace_def
        isWordChar_def)
  ultimately show ?thesis unfolding isDriveLink_def by blast
qed


section \<open>Repeated runs in the channel in which only the bot acts\<close>

















































section \<open>Evaluation of the codec on concrete strings\<close>

lemma encode_bom_1:
  "encode [0xFEFF, 0x31] = [0x206E, 0x206F, 0x206B, 0x206B, 0x206B, 0x206F, 0x2063, 0x2061]"
  by (simp add: encode_def TextEncoder_encode_def utf8_encode_cp_def isLeadSurrogate_def
      isTrailSurrogate_def fromCodePoints_def fromCodePoint_def upt_16 invisibleChars_def)

lemma codePoints_bom_1:
  "codePoints [0x206E, 0x206F, 0x206B, 0x206B, 0x206B, 0x206F, 0x2063, 0x2061] =
     [0x206E, 0x206F, 0x206B, 0x206B, 0x206B, 0x206F, 0x2063, 0x2061]"
  by (simp add: isLeadSurrogate_def isTrailSurrogate_def)

lemma toNibbles_bom_1:
  "toNibbles [0x206E, 0x206F, 0x206B, 0x206B, 0x206B, 0x206F, 0x2063, 0x2061] =
     Inr [14, 15, 11, 11, 11, 15, 3, 1]"
  by (simp add: indexOfChar_invisibleChars)

lemma pairNibbles_bom_1: "pairNibbles [14, 15, 11, 11, 11, 15, 3, 1] = [0xEF, 0xBB, 0xBF, 0x31]"
  by simp

lemma TextDecoder_bom_1: "TextDecoder_decode [0xEF, 0xBB, 0xBF, 0x31] = [0x31]"
  by (simp add: TextDecoder_decode_def utf8_step_def utf8_lead_def utf8_initial_def
      fromCodePoints_def fromCodePoint_def)

section \<open>The claims\<close>

text \<open>
  C1, as the specification states it: decoding the encoding of any string gives the string
  back. It fails on the string made of U+FEFF and the digit 1: the encoder writes the three
  octets of U+FEFF, and the decoder, which is created without \<open>ignoreBOM\<close>, does not output
  a leading U+FEFF; the result is the digit alone.
\<close>

theorem codec_roundtrip_counterexample:
  "decode (encode [0xFEFF, 0x31]) = Inr [0x31]
   \<and> decode (encode [0xFEFF, 0x31]) \<noteq> Inr [0xFEFF, 0x31]"
  unfolding decode_def encode_bom_1 codePoints_bom_1 toNibbles_bom_1
  by (simp add: pairNibbles_bom_1 TextDecoder_bom_1)

text \<open>
  C1, amended: for every string \<open>x\<close> without unpaired surrogate that does not begin with
  U+FEFF, \<open>decode (encode x)\<close> is \<open>x\<close>; and when the visible text holds none of the sixteen
  invisible characters, \<open>decodeAppendedInvisible (appendInvisible visible x)\<close> is \<open>x\<close>.
\<close>

theorem codec_roundtrip:
  assumes "isWellFormed x" and "\<not> prefix [0xFEFF] x" and "\<forall>u\<in>set visible. \<not> isInvisible u"
  shows "decode (encode x) = Inr x
         \<and> decodeAppendedInvisible (appendInvisible visible x) = Inr x"
  using decode_encode_wf[OF assms(1,2)] decodeAppended_append[OF assms] by simp

theorem codec_roundtrip_witness:
  "isWellFormed (js ''1234567890123456789'') \<and> \<not> prefix [0xFEFF] (js ''1234567890123456789'')
   \<and> list_all (\<lambda>u. \<not> isInvisible u) (js ''report.pdf'')
   \<and> decode (encode (js ''1234567890123456789'')) = Inr (js ''1234567890123456789'')
   \<and> decodeAppendedInvisible (appendInvisible (js ''report.pdf'') (js ''1234567890123456789''))
       = Inr (js ''1234567890123456789'')"
proof -
  have h1: "isWellFormed (js ''1234567890123456789'')"
    by (simp add: js_def isLeadSurrogate_def isTrailSurrogate_def)
  have h2: "\<not> prefix [0xFEFF] (js ''1234567890123456789'')"
    by (simp add: js_def)
  have h3: "\<forall>u\<in>set (js ''report.pdf''). \<not> isInvisible u"
    by (simp add: js_def isInvisible_iff)
  show ?thesis
    using codec_roundtrip[OF h1 h2 h3] h1 h2 h3 by (simp add: list_all_iff)
qed


text \<open>
  C9: on a text that holds none of the sixteen invisible characters,
  \<open>decodeAppendedInvisible\<close> returns the empty string and does not throw; so the callback of
  the lookup, for a source message id (which is never empty), answers \<open>false\<close> on a message
  whose first embed has such a title, and the search goes on to the next message.
\<close>

theorem no_payload_is_no_match:
  assumes "\<forall>u\<in>set title. \<not> isInvisible u"
  shows "decodeAppendedInvisible title = Inr []
         \<and> (embeds m = firstEmbed # others \<and> embedTitle firstEmbed = Some title \<and> sourceId \<noteq> []
              \<longrightarrow> isEmbedsMessageOf sourceId m = Inr False
                  \<and> findFirst (isEmbedsMessageOf sourceId) (m # ms)
                      = findFirst (isEmbedsMessageOf sourceId) ms)"
  using decodeAppended_none[OF assms] by (auto simp: isEmbedsMessageOf_def)


theorem no_payload_is_no_match_witness:
  "list_all (\<lambda>u. \<not> isInvisible u) (js ''notes.txt'')
   \<and> decodeAppendedInvisible (js ''notes.txt'') = Inr []
   \<and> isEmbedsMessageOf (js ''1001'') exampleOther = Inr False
   \<and> findFirst (isEmbedsMessageOf (js ''1001'')) [exampleOther] = Inr None"
proof -
  have h: "\<forall>u\<in>set (js ''notes.txt''). \<not> isInvisible u"
    by (simp add: js_def isInvisible_iff)
  have e: "embeds exampleOther = [(''title'', JString (js ''notes.txt''))] # []"
          "embedTitle [(''title'', JString (js ''notes.txt''))] = Some (js ''notes.txt'')"
          "js ''1001'' \<noteq> []"
    by (simp_all add: exampleOther_def embedTitle_def js_def)
  show ?thesis
    using no_payload_is_no_match[OF h, of exampleOther "[(''title'', JString (js ''notes.txt''))]"
            "[]" "js ''1001''" "[]"] h e
    by (simp add: list_all_iff)
qed

text \<open>
  C5: when the builder returns embeds for the files that were resolved, there is one embed for
  each file; the title of the first is the name of the first file followed by the encoding of
  the source message id, and the title of every other is the name of its file and nothing
  else. The builder does return embeds when every file has its four fields, the dates can be
  read and the data pass the checks of the embed builder.
\<close>

theorem correlation_id_in_first_title_only:
  assumes "resolveFiles R fileIds = Inr files" and "files \<noteq> []"
  shows "(\<forall>new. createEmbedsMessage R fileIds sourceId = Inr (Some new) \<longrightarrow>
            length (optEmbeds new) = length files
            \<and> embedTitle (optEmbeds new ! 0) = Some (the (name (files ! 0)) @ encode sourceId)
            \<and> (\<forall>i. 0 < i \<and> i < length files \<longrightarrow>
                   embedTitle (optEmbeds new ! i) = name (files ! i)))
         \<and> ((\<forall>f\<in>set files. truthy (name f) \<and> truthy (webViewLink f) \<and> truthy (mimeType f)
                \<and> truthy (modifiedTime f) \<and> dateParse R (the (modifiedTime f)) \<noteq> None)
              \<and> (\<forall>d. builderAccepts R d)
             \<longrightarrow> (\<exists>new. createEmbedsMessage R fileIds sourceId = Inr (Some new)))"
proof (intro conjI allI impI)
  fix new assume c: "createEmbedsMessage R fileIds sourceId = Inr (Some new)"
  then have b: "buildEmbeds R sourceId 0 files = Inr (optEmbeds new)"
    using assms by (auto simp: createEmbedsMessage_def split: sum.splits if_splits)
  note t = buildEmbeds_titles[OF b]
  show "length (optEmbeds new) = length files" using t by simp
  show "embedTitle (optEmbeds new ! 0) = Some (the (name (files ! 0)) @ encode sourceId)"
    using t assms(2) by (simp add: appendInvisible_def)
  fix i assume i: "0 < i \<and> i < length files"
  have "truthy (name (files ! i))"
  proof -
    have "\<And>k es. buildEmbeds R sourceId k files = Inr es \<Longrightarrow> \<forall>f\<in>set files. truthy (name f)"
    proof (induction files)
      case Nil then show ?case by simp
    next
      case (Cons f fs)
      then show ?case
        by (auto simp: buildEmbed_def split: sum.splits if_splits)
    qed
    then show ?thesis using b i by auto
  qed
  then show "embedTitle (optEmbeds new ! i) = name (files ! i)"
    using t i by (auto simp: truthy_def split: option.splits)
next
  assume "(\<forall>f\<in>set files. truthy (name f) \<and> truthy (webViewLink f) \<and> truthy (mimeType f)
                \<and> truthy (modifiedTime f) \<and> dateParse R (the (modifiedTime f)) \<noteq> None)
              \<and> (\<forall>d. builderAccepts R d)"
  then obtain es where "buildEmbeds R sourceId 0 files = Inr es"
    using buildEmbeds_total[of files R sourceId 0] by auto
  then show "\<exists>new. createEmbedsMessage R fileIds sourceId = Inr (Some new)"
    using assms by (simp add: createEmbedsMessage_def)
qed

theorem correlation_id_in_first_title_only_witness:
  "\<exists>new. createEmbedsMessage exampleRuntime [js ''A'', js ''C'', js ''B''] (js ''1001'') = Inr (Some new)
     \<and> length (optEmbeds new) = 2
     \<and> embedTitle (optEmbeds new ! 0) = Some (js ''notes.txt'' @ encode (js ''1001''))
     \<and> embedTitle (optEmbeds new ! 1) = Some (js ''plan'')"
proof -
  have r: "resolveFiles exampleRuntime [js ''A'', js ''C'', js ''B''] = Inr [fileA, fileB]"
    by (simp add: resolveFiles_def exampleRuntime_def js_def isNotFound_def List.map_filter_simps)
  have ne: "[fileA, fileB] \<noteq> []" by simp
  note t = correlation_id_in_first_title_only[OF r ne, of "js ''1001''"]
  have ok: "(\<forall>f\<in>set [fileA, fileB]. truthy (name f) \<and> truthy (webViewLink f) \<and> truthy (mimeType f)
                \<and> truthy (modifiedTime f) \<and> dateParse exampleRuntime (the (modifiedTime f)) \<noteq> None)
              \<and> (\<forall>d. builderAccepts exampleRuntime d)"
    by (simp add: fileA_def fileB_def truthy_def exampleRuntime_def js_def)
  from t ok obtain new where
    n: "createEmbedsMessage exampleRuntime [js ''A'', js ''C'', js ''B''] (js ''1001'') = Inr (Some new)"
    by blast
  have "length (optEmbeds new) = 2"
       "embedTitle (optEmbeds new ! 0) = Some (js ''notes.txt'' @ encode (js ''1001''))"
       "embedTitle (optEmbeds new ! 1) = Some (js ''plan'')"
    using t n by (simp_all add: fileA_def fileB_def)
  then show ?thesis using n by blast
qed

text \<open>
  C7: the resolver returns the files of the ids that resolve, in the order of the ids, as a
  subsequence of the answers of the store; an id that is not found is left out; any other
  rejection is the result of the resolver, and of the builder of the embeds message, and the
  resolver fails whenever some id is rejected otherwise.
\<close>

theorem resolver_keeps_order_drops_not_found:
  "(case resolveFiles R fileIds of
      Inr files \<Rightarrow>
        (\<forall>fid\<in>set fileIds. \<forall>e. filesGet R fid = Inl e \<longrightarrow> isNotFound e)
        \<and> files = resolvedOf R fileIds
        \<and> subseq (map Inr files) (map (filesGet R) fileIds)
    | Inl e \<Rightarrow>
        \<not> isNotFound e \<and> (\<exists>fid\<in>set fileIds. filesGet R fid = Inl e)
        \<and> createEmbedsMessage R fileIds sourceId = Inl e)
   \<and> ((\<exists>fid\<in>set fileIds. \<exists>e. filesGet R fid = Inl e \<and> \<not> isNotFound e)
        \<longrightarrow> (\<exists>e. resolveFiles R fileIds = Inl e))"
proof (intro conjI impI)
  show "case resolveFiles R fileIds of
      Inr files \<Rightarrow>
        (\<forall>fid\<in>set fileIds. \<forall>e. filesGet R fid = Inl e \<longrightarrow> isNotFound e)
        \<and> files = resolvedOf R fileIds
        \<and> subseq (map Inr files) (map (filesGet R) fileIds)
    | Inl e \<Rightarrow>
        \<not> isNotFound e \<and> (\<exists>fid\<in>set fileIds. filesGet R fid = Inl e)
        \<and> createEmbedsMessage R fileIds sourceId = Inl e"
  proof (cases "getFiles R fileIds")
    case (Inl e)
    then show ?thesis
      using getFiles_Inl[OF Inl] by (simp add: resolveFiles_def createEmbedsMessage_def)
  next
    case (Inr files)
    then show ?thesis
      using getFiles_Inr[OF Inr] subseq_resolved[of R fileIds]
      by (simp add: resolveFiles_def map_filter_resolved resolvedOf_def)
  qed
next
  assume "\<exists>fid\<in>set fileIds. \<exists>e. filesGet R fid = Inl e \<and> \<not> isNotFound e"
  then have "\<nexists>files. getFiles R fileIds = Inr files"
    using getFiles_Inr[of R fileIds] by blast
  then obtain e where "getFiles R fileIds = Inl e" by (cases "getFiles R fileIds") auto
  then show "\<exists>e. resolveFiles R fileIds = Inl e" by (simp add: resolveFiles_def)
qed

theorem resolver_keeps_order_drops_not_found_witness:
  "resolveFiles exampleRuntime [js ''A'', js ''C'', js ''B''] = Inr [fileA, fileB]
   \<and> subseq (map Inr [fileA, fileB]) (map (filesGet exampleRuntime) [js ''A'', js ''C'', js ''B''])
   \<and> resolveFiles exampleRuntime [js ''A'', js ''D'', js ''B''] = Inl (OtherError ''ECONNRESET'')"
proof -
  have r: "resolveFiles exampleRuntime [js ''A'', js ''C'', js ''B''] = Inr [fileA, fileB]"
    by (simp add: resolveFiles_def exampleRuntime_def js_def isNotFound_def List.map_filter_simps)
  have d: "resolveFiles exampleRuntime [js ''A'', js ''D'', js ''B''] = Inl (OtherError ''ECONNRESET'')"
    by (simp add: resolveFiles_def exampleRuntime_def js_def isNotFound_def)
  have "subseq (map Inr [fileA, fileB]) (map (filesGet exampleRuntime) [js ''A'', js ''C'', js ''B''])"
    using resolver_keeps_order_drops_not_found[where R=exampleRuntime
            and fileIds="[js ''A'', js ''C'', js ''B'']" and sourceId="js ''1001''"]
    unfolding r sum.case by blast
  then show ?thesis using r d by blast
qed

text \<open>
  C8: when \<open>normalizeUrl\<close> returns on the URLs at hand, the decision is to suppress exactly when
  the message has a preview and every preview has a URL, not empty, whose normal form is the
  normal form of one of the file URLs; the request is made when the decision differs from
  the flag of the message, and only then; the normal form is taken with the options that force
  https and remove the query, the hash and an explicit port.
\<close>

theorem suppress_iff_all_previews_match:
  assumes "\<forall>f\<in>set fileUrls. normalizes R f"
      and "\<forall>e\<in>set (embeds message). \<forall>u. embedUrl e = Some u \<longrightarrow> normalizes R u"
  shows "shouldSuppress R message fileUrls =
           Inr (embeds message \<noteq> []
                \<and> (\<forall>e\<in>set (embeds message). \<exists>u. embedUrl e = Some u \<and> u \<noteq> []
                      \<and> (\<exists>f\<in>set fileUrls.
                            normalizeUrl R normalizeOptions u = normalizeUrl R normalizeOptions f)))
         \<and> (\<forall>b. shouldSuppress R message fileUrls = Inr b \<longrightarrow>
               suppressEmbeds P R message fileUrls s =
                 (if suppressEmbedsFlag message = b then (Inr (), s) else doSuppress P message b s)
               \<and> trace (snd (suppressEmbeds P R message fileUrls s)) =
                   trace s @ (if suppressEmbedsFlag message = b then [] else [Suppress message b]))
         \<and> normalizeOptions = \<lparr>defaultProtocol = ''https'', normalizeProtocol = True, forceHttps = True,
              removeExplicitPort = True, stripHash = True, removeQueryParameters = True\<rparr>"
proof (intro conjI allI impI)
  let ?q = "\<lambda>eUrl. \<exists>u. eUrl = Some u \<and> u \<noteq> []
                  \<and> (\<exists>f\<in>set fileUrls. normalizeUrl R normalizeOptions u = normalizeUrl R normalizeOptions f)"
  have each: "\<forall>x\<in>set (map embedUrl (embeds message)). urlMatches R fileUrls x = Inr (?q x)"
    using assms by (auto intro!: urlMatches_Inr)
  then have "everyM (urlMatches R fileUrls) (map embedUrl (embeds message))
             = Inr (\<forall>x\<in>set (map embedUrl (embeds message)). urlMatches R fileUrls x = Inr True)"
    by (intro everyM_Inr) auto
  moreover have "(\<forall>x\<in>set (map embedUrl (embeds message)). urlMatches R fileUrls x = Inr True)
                 \<longleftrightarrow> (\<forall>e\<in>set (embeds message). ?q (embedUrl e))"
    using each by auto
  ultimately show "shouldSuppress R message fileUrls =
           Inr (embeds message \<noteq> []
                \<and> (\<forall>e\<in>set (embeds message). \<exists>u. embedUrl e = Some u \<and> u \<noteq> []
                      \<and> (\<exists>f\<in>set fileUrls.
                            normalizeUrl R normalizeOptions u = normalizeUrl R normalizeOptions f)))"
    by (auto simp: shouldSuppress_def Let_def)
next
  fix b assume b: "shouldSuppress R message fileUrls = Inr b"
  show "suppressEmbeds P R message fileUrls s =
                 (if suppressEmbedsFlag message = b then (Inr (), s) else doSuppress P message b s)"
    using b by (simp add: suppressEmbeds_def)
  show "trace (snd (suppressEmbeds P R message fileUrls s)) =
                   trace s @ (if suppressEmbedsFlag message = b then [] else [Suppress message b])"
    using b by (simp add: suppressEmbeds_def doSuppress_def split: prod.splits)
next
  show "normalizeOptions = \<lparr>defaultProtocol = ''https'', normalizeProtocol = True, forceHttps = True,
              removeExplicitPort = True, stripHash = True, removeQueryParameters = True\<rparr>"
    by (simp add: normalizeOptions_def)
qed

theorem suppress_iff_all_previews_match_witness:
  "shouldSuppress exampleRuntime exampleSource [exampleUrl] = Inr True
   \<and> trace (snd (suppressEmbeds examplePlatform exampleRuntime exampleSource [exampleUrl] exampleState))
       = [Suppress exampleSource True]
   \<and> shouldSuppress exampleRuntime
        (exampleSource\<lparr>embeds := [[(''url'', JString (js ''https://drive.google.com/file/d/A/view''))],
                                   [(''url'', JString (js ''https://example.com/''))]]\<rparr>)
        [exampleUrl] = Inr False"
proof -
  let ?link = "js ''https://drive.google.com/file/d/A/view''"
  let ?other = "js ''https://example.com/''"
  let ?two = "exampleSource\<lparr>embeds := [[(''url'', JString ?link)], [(''url'', JString ?other)]]\<rparr>"
  have n: "normalizes exampleRuntime u" for u
    by (simp add: normalizes_def exampleRuntime_def)
  have norm: "normalizeUrl exampleRuntime normalizeOptions exampleUrl = Inr ?link"
             "normalizeUrl exampleRuntime normalizeOptions ?link = Inr ?link"
             "normalizeUrl exampleRuntime normalizeOptions ?other = Inr ?other"
    by (simp_all add: exampleRuntime_def exampleUrl_def js_def)
  have ne: "?link \<noteq> []" "?other \<noteq> []" "?other \<noteq> ?link" by (simp_all add: js_def)
  have emb: "embeds exampleSource = [[(''url'', JString ?link)]]"
            "embeds ?two = [[(''url'', JString ?link)], [(''url'', JString ?other)]]"
            "suppressEmbedsFlag exampleSource = False"
    by (simp_all add: exampleSource_def)
  have eu: "embedUrl [(''url'', JString u)] = Some u" for u
    by (simp add: embedUrl_def)
  have one: "shouldSuppress exampleRuntime exampleSource [exampleUrl] = Inr True"
    using suppress_iff_all_previews_match[where fileUrls="[exampleUrl]" and R=exampleRuntime
            and message=exampleSource and P=examplePlatform and s=exampleState] n
    by (simp add: emb eu norm ne)
  have two: "shouldSuppress exampleRuntime ?two [exampleUrl] = Inr False"
    using suppress_iff_all_previews_match[where fileUrls="[exampleUrl]" and R=exampleRuntime
            and message="?two" and P=examplePlatform and s=exampleState] n
    by (simp add: emb eu norm ne del: message.simps)
  have "trace (snd (suppressEmbeds examplePlatform exampleRuntime exampleSource [exampleUrl] exampleState))
       = trace exampleState
         @ (if suppressEmbedsFlag exampleSource = True then [] else [Suppress exampleSource True])"
    using suppress_iff_all_previews_match[where fileUrls="[exampleUrl]" and R=exampleRuntime
            and message=exampleSource and P=examplePlatform and s=exampleState] n one
    by blast
  then have "trace (snd (suppressEmbeds examplePlatform exampleRuntime exampleSource [exampleUrl] exampleState))
       = [Suppress exampleSource True]"
    by (simp add: emb exampleState_def)
  then show ?thesis using one two by simp
qed


text \<open>
  C3: the verdict of the comparison of the embeds of the old message with the new embeds, where
  every embed has a timestamp that is a string. The embeds differ exactly when their numbers
  differ, or at some position one of the two timestamps is not read as an instant by the
  runtime or the two are read as different instants, or a property of the new embed other than
  the timestamp is not a property of the old embed with the same value. So two renderings of
  one instant do not make a difference, and two different instants do. Properties that only the
  old embeds have, other than the timestamp, do not change the verdict. The edit request is
  made exactly when the embeds differ: the run requests \<open>Edit\<close> in that case and nothing
  otherwise.
\<close>

theorem diff_compares_instants_and_fields:
  assumes old_ts: "\<forall>i<length (embeds m). map_of (embeds m ! i) ''timestamp'' = Some (JString (a i))"
      and new_ts: "\<forall>i<length (optEmbeds n). map_of (optEmbeds n ! i) ''timestamp'' = Some (JString (b i))"
      and extra: "length extras = length (embeds m)"
                 "\<forall>i<length (embeds m). \<forall>key\<in>fst ` set (extras ! i).
                    key \<noteq> ''timestamp'' \<and> key \<notin> fst ` set (optEmbeds n ! i)"
  shows "(embedsDiffer R (embeds m) (optEmbeds n) \<longleftrightarrow>
            length (embeds m) \<noteq> length (optEmbeds n)
            \<or> (\<exists>i<length (embeds m).
                  dateParse R (a i) = None \<or> dateParse R (b i) = None
                  \<or> dateParse R (a i) \<noteq> dateParse R (b i)
                  \<or> (\<exists>(key, v)\<in>set (optEmbeds n ! i).
                        key \<noteq> ''timestamp'' \<and> map_of (embeds m ! i) key \<noteq> Some v)))
         \<and> embedsDiffer R (map2 (@) (embeds m) extras) (optEmbeds n)
             = embedsDiffer R (embeds m) (optEmbeds n)
         \<and> updateShadow P R sourceMessage (Some m) (Some n) s =
             (if embedsDiffer R (embeds m) (optEmbeds n) then (doEdit P m n s, True)
              else ((Inr (), s), True))
         \<and> trace (snd (fst (updateShadow P R sourceMessage (Some m) (Some n) s))) =
             trace s @ (if embedsDiffer R (embeds m) (optEmbeds n) then [Edit m n] else [])"
proof (intro conjI)
  let ?old = "embeds m" and ?new = "optEmbeds n"
  show "embedsDiffer R ?old ?new \<longleftrightarrow>
            length ?old \<noteq> length ?new
            \<or> (\<exists>i<length ?old.
                  dateParse R (a i) = None \<or> dateParse R (b i) = None
                  \<or> dateParse R (a i) \<noteq> dateParse R (b i)
                  \<or> (\<exists>(key, v)\<in>set (?new ! i). key \<noteq> ''timestamp'' \<and> map_of (?old ! i) key \<noteq> Some v))"
  proof (cases "length ?old = length ?new")
    case False
    then show ?thesis by (simp add: embedsDiffer_def)
  next
    case True
    have "embedDiffers R (?old ! i) (?new ! i) \<longleftrightarrow>
           dateParse R (a i) = None \<or> dateParse R (b i) = None \<or> dateParse R (a i) \<noteq> dateParse R (b i)
           \<or> (\<exists>(key, v)\<in>set (?new ! i). key \<noteq> ''timestamp'' \<and> map_of (?old ! i) key \<noteq> Some v)"
      if "i < length ?old" for i
      using that old_ts new_ts True by (intro embedDiffers_strings) auto
    then show ?thesis
      using True someDiffers_iff[OF True, of R] by (auto simp: embedsDiffer_def)
  qed
  show "embedsDiffer R (map2 (@) ?old extras) ?new = embedsDiffer R ?old ?new"
  proof (cases "length ?old = length ?new")
    case False
    then show ?thesis using extra(1) by (simp add: embedsDiffer_def)
  next
    case True
    have len: "length (map2 (@) ?old extras) = length ?old" using extra(1) by simp
    have "embedDiffers R (map2 (@) ?old extras ! i) (?new ! i) = embedDiffers R (?old ! i) (?new ! i)"
      if "i < length ?old" for i
      using that extra by (simp add: embedDiffers_extra)
    then show ?thesis
      using True len someDiffers_iff[of "map2 (@) ?old extras" ?new R] someDiffers_iff[of ?old ?new R]
      by (auto simp: embedsDiffer_def)
  qed
  show "updateShadow P R sourceMessage (Some m) (Some n) s =
             (if embedsDiffer R ?old ?new then (doEdit P m n s, True) else ((Inr (), s), True))"
    by (simp add: updateShadow_def)
  then show "trace (snd (fst (updateShadow P R sourceMessage (Some m) (Some n) s))) =
             trace s @ (if embedsDiffer R ?old ?new then [Edit m n] else [])"
    by (simp add: trace_doEdit)
qed

theorem diff_compares_instants_and_fields_witness:
  "dateParse twoDayRuntime (js ''2024-01-01T00:00:00+00:00'') = Some 1704067200000
   \<and> dateParse twoDayRuntime (js ''2024-01-01T00:00:00.000Z'') = Some 1704067200000
   \<and> dateParse twoDayRuntime (js ''2024-01-02T00:00:00.000Z'') = Some 1704153600000
   \<and> \<not> embedsDiffer twoDayRuntime (embeds exampleBare) exampleNew
   \<and> \<not> embedsDiffer twoDayRuntime (map2 (@) (embeds exampleBare) platformExtras) exampleNew
   \<and> trace (snd (fst (updateShadow examplePlatform twoDayRuntime exampleSource (Some exampleBare)
               (Some \<lparr>optEmbeds = exampleNew, optFlags = SuppressNotifications\<rparr>) exampleState)))
       = trace exampleState
   \<and> embedsDiffer twoDayRuntime (embeds exampleBare) exampleLater
   \<and> trace (snd (fst (updateShadow examplePlatform twoDayRuntime exampleSource (Some exampleBare)
               (Some \<lparr>optEmbeds = exampleLater, optFlags = SuppressNotifications\<rparr>) exampleState)))
       = trace exampleState
           @ [Edit exampleBare \<lparr>optEmbeds = exampleLater, optFlags = SuppressNotifications\<rparr>]
   \<and> embedsDiffer twoDayRuntime (embeds exampleBare) exampleRenamed
   \<and> embedsDiffer twoDayRuntime (embeds exampleBare) (exampleNew @ exampleNew)"
proof -
  let ?R = twoDayRuntime
  let ?a = "\<lambda>i :: nat. js ''2024-01-01T00:00:00+00:00''"
  let ?z = "\<lambda>i :: nat. js ''2024-01-01T00:00:00.000Z''"
  let ?l = "\<lambda>i :: nat. js ''2024-01-02T00:00:00.000Z''"
  have time: "dateParse ?R (js ''2024-01-01T00:00:00+00:00'') = Some 1704067200000"
             "dateParse ?R (js ''2024-01-01T00:00:00.000Z'') = Some 1704067200000"
             "dateParse ?R (js ''2024-01-02T00:00:00.000Z'') = Some 1704153600000"
    by (simp_all add: twoDayRuntime_def exampleRuntime_def js_def)
  have old: "embeds exampleBare =
       [[(''title'', JString (appendInvisible (js ''notes.txt'') (js ''1001''))),
         (''url'', JString (js ''https://drive.google.com/file/d/A/view'')),
         (''color'', JNumber 0xe3e5e8),
         (''timestamp'', JString (js ''2024-01-01T00:00:00+00:00''))]]"
    by (simp add: exampleBare_def)
  have old_ts: "\<forall>i<length (embeds exampleBare).
                  map_of (embeds exampleBare ! i) ''timestamp'' = Some (JString (?a i))"
    by (simp add: old)
  have ex: "length platformExtras = length (embeds exampleBare)"
    by (simp add: old platformExtras_def)
  have names: "appendInvisible (js ''notes.md'') (js ''1001'')
                 \<noteq> appendInvisible (js ''notes.txt'') (js ''1001'')"
    by (simp add: appendInvisible_def js_def)
  have nts_same: "\<forall>i<length (optEmbeds \<lparr>optEmbeds = exampleNew, optFlags = SuppressNotifications\<rparr>).
                  map_of (optEmbeds \<lparr>optEmbeds = exampleNew, optFlags = SuppressNotifications\<rparr> ! i) ''timestamp'' = Some (JString (?z i))"
    by (simp add: exampleNew_def nth_append less_Suc_eq)
  have ext_same: "\<forall>i<length (embeds exampleBare). \<forall>key\<in>fst ` set (platformExtras ! i).
                    key \<noteq> ''timestamp'' \<and> key \<notin> fst ` set (optEmbeds \<lparr>optEmbeds = exampleNew, optFlags = SuppressNotifications\<rparr> ! i)"
    by (simp add: old exampleNew_def platformExtras_def)
  note T_same = diff_compares_instants_and_fields[where m=exampleBare
            and n="\<lparr>optEmbeds = exampleNew, optFlags = SuppressNotifications\<rparr>"
            and a="?a" and b="?z" and extras=platformExtras and R="?R" and P=examplePlatform
            and sourceMessage=exampleSource and s=exampleState, OF old_ts nts_same ex ext_same]
  have same1: "\<not> embedsDiffer ?R (embeds exampleBare) exampleNew"
    using T_same[THEN conjunct1] by (simp add: old exampleNew_def time)
  have same2: "\<not> embedsDiffer ?R (map2 (@) (embeds exampleBare) platformExtras) exampleNew"
    using T_same[THEN conjunct2, THEN conjunct1] same1 by simp
  have same3: "trace (snd (fst (updateShadow examplePlatform ?R exampleSource (Some exampleBare)
               (Some \<lparr>optEmbeds = exampleNew, optFlags = SuppressNotifications\<rparr>) exampleState)))
          = trace exampleState"
    using T_same[THEN conjunct2, THEN conjunct2, THEN conjunct2] same1 by simp
  have nts_later: "\<forall>i<length (optEmbeds \<lparr>optEmbeds = exampleLater, optFlags = SuppressNotifications\<rparr>).
                  map_of (optEmbeds \<lparr>optEmbeds = exampleLater, optFlags = SuppressNotifications\<rparr> ! i) ''timestamp'' = Some (JString (?l i))"
    by (simp add: exampleLater_def nth_append less_Suc_eq)
  have ext_later: "\<forall>i<length (embeds exampleBare). \<forall>key\<in>fst ` set (platformExtras ! i).
                    key \<noteq> ''timestamp'' \<and> key \<notin> fst ` set (optEmbeds \<lparr>optEmbeds = exampleLater, optFlags = SuppressNotifications\<rparr> ! i)"
    by (simp add: old exampleLater_def platformExtras_def)
  note T_later = diff_compares_instants_and_fields[where m=exampleBare
            and n="\<lparr>optEmbeds = exampleLater, optFlags = SuppressNotifications\<rparr>"
            and a="?a" and b="?l" and extras=platformExtras and R="?R" and P=examplePlatform
            and sourceMessage=exampleSource and s=exampleState, OF old_ts nts_later ex ext_later]
  have later1: "embedsDiffer ?R (embeds exampleBare) exampleLater"
    using T_later[THEN conjunct1] by (simp add: old exampleLater_def time)
  have later2: "trace (snd (fst (updateShadow examplePlatform ?R exampleSource (Some exampleBare)
               (Some \<lparr>optEmbeds = exampleLater, optFlags = SuppressNotifications\<rparr>) exampleState)))
          = trace exampleState
              @ [Edit exampleBare \<lparr>optEmbeds = exampleLater, optFlags = SuppressNotifications\<rparr>]"
    using T_later[THEN conjunct2, THEN conjunct2, THEN conjunct2] later1 by simp
  have nts_renamed: "\<forall>i<length (optEmbeds \<lparr>optEmbeds = exampleRenamed, optFlags = SuppressNotifications\<rparr>).
                  map_of (optEmbeds \<lparr>optEmbeds = exampleRenamed, optFlags = SuppressNotifications\<rparr> ! i) ''timestamp'' = Some (JString (?z i))"
    by (simp add: exampleRenamed_def nth_append less_Suc_eq)
  have ext_renamed: "\<forall>i<length (embeds exampleBare). \<forall>key\<in>fst ` set (platformExtras ! i).
                    key \<noteq> ''timestamp'' \<and> key \<notin> fst ` set (optEmbeds \<lparr>optEmbeds = exampleRenamed, optFlags = SuppressNotifications\<rparr> ! i)"
    by (simp add: old exampleRenamed_def platformExtras_def)
  note T_renamed = diff_compares_instants_and_fields[where m=exampleBare
            and n="\<lparr>optEmbeds = exampleRenamed, optFlags = SuppressNotifications\<rparr>"
            and a="?a" and b="?z" and extras=platformExtras and R="?R" and P=examplePlatform
            and sourceMessage=exampleSource and s=exampleState, OF old_ts nts_renamed ex ext_renamed]
  have renamed: "embedsDiffer ?R (embeds exampleBare) exampleRenamed"
    using T_renamed[THEN conjunct1] names by (simp add: old exampleRenamed_def time)
  have nts_longer: "\<forall>i<length (optEmbeds \<lparr>optEmbeds = exampleNew @ exampleNew, optFlags = SuppressNotifications\<rparr>).
                  map_of (optEmbeds \<lparr>optEmbeds = exampleNew @ exampleNew, optFlags = SuppressNotifications\<rparr> ! i) ''timestamp'' = Some (JString (?z i))"
    by (simp add: exampleNew_def nth_append less_Suc_eq)
  have ext_longer: "\<forall>i<length (embeds exampleBare). \<forall>key\<in>fst ` set (platformExtras ! i).
                    key \<noteq> ''timestamp'' \<and> key \<notin> fst ` set (optEmbeds \<lparr>optEmbeds = exampleNew @ exampleNew, optFlags = SuppressNotifications\<rparr> ! i)"
    by (simp add: old exampleNew_def platformExtras_def)
  note T_longer = diff_compares_instants_and_fields[where m=exampleBare
            and n="\<lparr>optEmbeds = exampleNew @ exampleNew, optFlags = SuppressNotifications\<rparr>"
            and a="?a" and b="?z" and extras=platformExtras and R="?R" and P=examplePlatform
            and sourceMessage=exampleSource and s=exampleState, OF old_ts nts_longer ex ext_longer]
  have longer: "embedsDiffer ?R (embeds exampleBare) (exampleNew @ exampleNew)"
    using T_longer[THEN conjunct1] by (simp add: old exampleNew_def)
  show ?thesis
    using time same1 same2 same3 later1 later2 renamed longer by (intro conjI)
qed



text \<open>
  C4: the lookup asks for ten messages after the source message id in the channel of the
  source message. Of the messages it is given, it keeps those of the bot, sorts them by
  creation time, oldest first, and returns the first whose first embed has a title that decodes
  to the source message id. When there is none and the budget is not zero, it waits one second
  and looks again with the budget less one; with a budget that is not negative it returns
  \<open>undefined\<close> only after all the queries of the budget.
\<close>

theorem locator_returns_first_match:
  "(findOldEmbedsMessage sourceId botUserId history = Inr (Some m) \<longrightarrow>
      m \<in> set history \<and> authorId m = botUserId \<and> isEmbedsMessageOf sourceId m = Inr True
      \<and> (\<exists>earlier later.
            sort_key createdTimestamp (filter (\<lambda>m. authorId m = botUserId) history)
              = earlier @ m # later
            \<and> (\<forall>e\<in>set earlier. isEmbedsMessageOf sourceId e = Inr False)))
   \<and> (findOldEmbedsMessage sourceId botUserId history = Inr None \<longrightarrow>
        (\<forall>m\<in>set history. authorId m = botUserId \<longrightarrow> isEmbedsMessageOf sourceId m = Inr False))
   \<and> sorted (map createdTimestamp
        (sort_key createdTimestamp (filter (\<lambda>m. authorId m = botUserId) history)))
   \<and> retrieveOldEmbedsMessage P message maxRetries s =
        (case fetchMessages P (channelId message) (messageId message) 10 (world s) of
           (r, w) \<Rightarrow>
             (let s1 = \<lparr>world = w, trace = trace s @ [Fetch (channelId message) (messageId message) 10]\<rparr>
              in case r of
                   Inl e \<Rightarrow> Some (Inl e, s1)
                 | Inr fetched \<Rightarrow>
                     (case findOldEmbedsMessage (messageId message) (clientUserId message) fetched of
                        Inl e \<Rightarrow> Some (Inl e, s1)
                      | Inr (Some found) \<Rightarrow> Some (Inr (Some found), s1)
                      | Inr None \<Rightarrow>
                          if maxRetries = 0 then Some (Inr None, s1)
                          else retrieveOldEmbedsMessage P message (maxRetries - 1)
                                 \<lparr>world = sleep P 1000 w, trace = trace s1 @ [Sleep 1000]\<rparr>)))
   \<and> (0 \<le> maxRetries \<and> retrieveOldEmbedsMessage P message maxRetries s = Some (Inr None, s')
        \<longrightarrow> trace s' = trace s @ attempts message (nat maxRetries))"
proof (intro conjI impI)
  let ?sorted = "sort_key createdTimestamp (filter (\<lambda>m. authorId m = botUserId) history)"
  have set_sorted: "set ?sorted = {m \<in> set history. authorId m = botUserId}" by auto
  {
    assume "findOldEmbedsMessage sourceId botUserId history = Inr (Some m)"
    then have "findFirst (isEmbedsMessageOf sourceId) ?sorted = Inr (Some m)"
      by (simp add: findOldEmbedsMessage_def)
    from findFirst_Some[OF this] obtain earlier later where
      split: "?sorted = earlier @ m # later" "isEmbedsMessageOf sourceId m = Inr True"
             "\<forall>e\<in>set earlier. isEmbedsMessageOf sourceId e = Inr False" by blast
    have "m \<in> set ?sorted" using split(1) by (metis in_set_conv_decomp)
    then show "m \<in> set history" "authorId m = botUserId" using set_sorted by auto
    show "isEmbedsMessageOf sourceId m = Inr True" by (rule split(2))
    show "\<exists>earlier later. ?sorted = earlier @ m # later
            \<and> (\<forall>e\<in>set earlier. isEmbedsMessageOf sourceId e = Inr False)"
      using split by blast
  }
  {
    assume "findOldEmbedsMessage sourceId botUserId history = Inr None"
    then have "\<forall>x\<in>set ?sorted. isEmbedsMessageOf sourceId x = Inr False"
      unfolding findOldEmbedsMessage_def by (rule findFirst_None)
    then show "\<forall>m\<in>set history. authorId m = botUserId \<longrightarrow> isEmbedsMessageOf sourceId m = Inr False"
      using set_sorted by auto
  }
  show "sorted (map createdTimestamp ?sorted)" by (rule sorted_sort_key)
  show "retrieveOldEmbedsMessage P message maxRetries s =
        (case fetchMessages P (channelId message) (messageId message) 10 (world s) of
           (r, w) \<Rightarrow>
             (let s1 = \<lparr>world = w, trace = trace s @ [Fetch (channelId message) (messageId message) 10]\<rparr>
              in case r of
                   Inl e \<Rightarrow> Some (Inl e, s1)
                 | Inr fetched \<Rightarrow>
                     (case findOldEmbedsMessage (messageId message) (clientUserId message) fetched of
                        Inl e \<Rightarrow> Some (Inl e, s1)
                      | Inr (Some found) \<Rightarrow> Some (Inr (Some found), s1)
                      | Inr None \<Rightarrow>
                          if maxRetries = 0 then Some (Inr None, s1)
                          else retrieveOldEmbedsMessage P message (maxRetries - 1)
                                 \<lparr>world = sleep P 1000 w, trace = trace s1 @ [Sleep 1000]\<rparr>)))"
    by (subst retrieveOldEmbedsMessage.simps)
       (auto simp: doFetch_def doSleep_def Let_def split: prod.splits sum.splits option.splits)
  {
    assume a: "0 \<le> maxRetries \<and> retrieveOldEmbedsMessage P message maxRetries s = Some (Inr None, s')"
    then show "trace s' = trace s @ attempts message (nat maxRetries)"
      using retrieve_returns[of maxRetries "nat maxRetries" P message s] by auto
  }
qed

theorem locator_returns_first_match_witness:
  "findOldEmbedsMessage (js ''1001'') (js ''42'') [exampleReply, exampleShadow, exampleOther]
     = Inr (Some exampleShadow)
   \<and> exampleShadow \<in> set [exampleReply, exampleShadow, exampleOther]
   \<and> authorId exampleShadow = js ''42''
   \<and> isEmbedsMessageOf (js ''1001'') exampleShadow = Inr True"
proof -
  have vis: "\<forall>u\<in>set (js ''notes.txt''). \<not> isInvisible u"
    by (simp add: js_def isInvisible_iff)
  have wf: "isWellFormed (js ''1001'')" "\<not> prefix [0xFEFF] (js ''1001'')"
    by (simp_all add: js_def isLeadSurrogate_def isTrailSurrogate_def)
  have ne: "appendInvisible (js ''notes.txt'') (js ''1001'') \<noteq> []" "js ''1001'' \<noteq> []"
    by (simp_all add: appendInvisible_def js_def)
  have shadow: "isEmbedsMessageOf (js ''1001'') exampleShadow = Inr True"
    using decodeAppended_append[OF wf vis] ne
    by (simp add: isEmbedsMessageOf_def exampleShadow_def embedTitle_def)
  have other: "isEmbedsMessageOf (js ''1001'') exampleOther = Inr False"
    using decodeAppended_none[OF vis] ne
    by (simp add: isEmbedsMessageOf_def exampleOther_def embedTitle_def)
  have sorted: "sort_key createdTimestamp
                  (filter (\<lambda>m. authorId m = js ''42'') [exampleReply, exampleShadow, exampleOther])
                = [exampleOther, exampleShadow]"
    by (simp add: exampleReply_def exampleShadow_def exampleOther_def js_def)
  have found: "findOldEmbedsMessage (js ''1001'') (js ''42'') [exampleReply, exampleShadow, exampleOther]
     = Inr (Some exampleShadow)"
    unfolding findOldEmbedsMessage_def sorted by (simp add: shadow other)
  show ?thesis
    using locator_returns_first_match[where sourceId="js ''1001''" and botUserId="js ''42''"
            and history="[exampleReply, exampleShadow, exampleOther]" and m=exampleShadow
            and P=examplePlatform and message=exampleSource and maxRetries=0 and s=exampleState
            and s'=exampleState] found
    by blast
qed


text \<open>
  C6, as the specification states it: the extractor returns exactly the links of the text with
  their identifiers, in order. It fails on two links with only a comma between them: a comma
  can be part of a path, so the pattern matches once, from the start of the first link to the
  end of the second, and the extractor returns one pair, the whole text with the identifier of
  the second link, and not the pairs of the two links.
\<close>

theorem extractor_counterexample:
  "exampleJoined = js ''https://drive.google.com/file/d/1aB2cD3eF4gH5iJ6kL7mN8oP9q/view''
                     @ js '','' @ js ''https://docs.google.com/document/d/0B_abcdefghijklmnopqrstuvwx-yz/edit''
   \<and> isDriveLink (js ''https://drive.google.com/file/d/1aB2cD3eF4gH5iJ6kL7mN8oP9q/view'')
        (js ''1aB2cD3eF4gH5iJ6kL7mN8oP9q'')
   \<and> isDriveLink (js ''https://docs.google.com/document/d/0B_abcdefghijklmnopqrstuvwx-yz/edit'')
        (js ''0B_abcdefghijklmnopqrstuvwx-yz'')
   \<and> extractFileIds exampleJoined =
        [\<lparr>url = exampleJoined, fileId = js ''0B_abcdefghijklmnopqrstuvwx-yz''\<rparr>]
   \<and> extractFileIds exampleJoined \<noteq>
        [\<lparr>url = js ''https://drive.google.com/file/d/1aB2cD3eF4gH5iJ6kL7mN8oP9q/view'',
          fileId = js ''1aB2cD3eF4gH5iJ6kL7mN8oP9q''\<rparr>,
         \<lparr>url = js ''https://docs.google.com/document/d/0B_abcdefghijklmnopqrstuvwx-yz/edit'',
          fileId = js ''0B_abcdefghijklmnopqrstuvwx-yz''\<rparr>]"
proof -
  have 1: "exampleJoined = js ''https://drive.google.com/file/d/1aB2cD3eF4gH5iJ6kL7mN8oP9q/view''
                     @ js '','' @ js ''https://docs.google.com/document/d/0B_abcdefghijklmnopqrstuvwx-yz/edit''"
    by (simp add: exampleJoined_def js_def)
  have 2: "extractFileIds exampleJoined \<noteq>
        [\<lparr>url = js ''https://drive.google.com/file/d/1aB2cD3eF4gH5iJ6kL7mN8oP9q/view'',
          fileId = js ''1aB2cD3eF4gH5iJ6kL7mN8oP9q''\<rparr>,
         \<lparr>url = js ''https://docs.google.com/document/d/0B_abcdefghijklmnopqrstuvwx-yz/edit'',
          fileId = js ''0B_abcdefghijklmnopqrstuvwx-yz''\<rparr>]"
    unfolding extractFileIds_exampleJoined by simp
  show ?thesis
    using 1 isDriveLink_view isDriveLink_edit extractFileIds_exampleJoined 2 by (intro conjI)
qed

text \<open>
  C6, amended. Every pair that the extractor returns is a link with its identifier (a path
  segment \<open>d\<close>, \<open>e\<close> or \<open>folders\<close> followed by at least 25 letters, digits, underscores or
  hyphens). It returns nothing exactly when no link starts anywhere in the text. Its result
  begins with a pair exactly when that pair is the link taken at the first index where a link
  starts and the remaining pairs are the result on the text after that link; the link taken
  is, of the links that start there, the one with the longest path before the segment, of these
  the one with the longest identifier, and of these the longest, and there is only one such. So
  the pairs are those of the successive links that do not overlap, in the order of appearance,
  and a link that appears twice is returned twice. On the text with two well-formed links and
  one link whose identifier has 24 characters the result is the two well-formed pairs in order.
\<close>

theorem extractor_returns_links_in_order:
  "(\<forall>r \<in> set (extractFileIds cont). isDriveLink (url r) (fileId r))
   \<and> (extractFileIds cont = [] \<longleftrightarrow> (\<forall>p\<le>length cont. \<not> linkStartsAt cont p))
   \<and> (extractFileIds cont = r # rs \<longleftrightarrow>
         (\<exists>g t. cont = g @ url r @ t \<and> (\<forall>p<length g. \<not> linkStartsAt cont p)
                \<and> firstChoice (url r @ t) (url r) (fileId r) \<and> rs = extractFileIds t))
   \<and> (firstChoice s link ident \<and> firstChoice s link' ident' \<longrightarrow> link = link' \<and> ident = ident')
   \<and> extractFileIds exampleText =
        [\<lparr>url = js ''https://drive.google.com/file/d/1aB2cD3eF4gH5iJ6kL7mN8oP9q/view'',
          fileId = js ''1aB2cD3eF4gH5iJ6kL7mN8oP9q''\<rparr>,
         \<lparr>url = js ''https://drive.google.com/drive/folders/0B_abcdefghijklmnopqrstuvwx-yz'',
          fileId = js ''0B_abcdefghijklmnopqrstuvwx-yz''\<rparr>]
   \<and> extractFileIds exampleTwice =
        [\<lparr>url = js ''https://drive.google.com/file/d/1aB2cD3eF4gH5iJ6kL7mN8oP9q/view'',
          fileId = js ''1aB2cD3eF4gH5iJ6kL7mN8oP9q''\<rparr>,
         \<lparr>url = js ''https://drive.google.com/file/d/1aB2cD3eF4gH5iJ6kL7mN8oP9q/view'',
          fileId = js ''1aB2cD3eF4gH5iJ6kL7mN8oP9q''\<rparr>]"
proof (intro conjI)
  show "\<forall>r \<in> set (extractFileIds cont). isDriveLink (url r) (fileId r)"
    using extractFileIds_links by blast
  show "extractFileIds cont = [] \<longleftrightarrow> (\<forall>p\<le>length cont. \<not> linkStartsAt cont p)"
    by (rule extractFileIds_Nil_iff)
  show "extractFileIds cont = r # rs \<longleftrightarrow>
         (\<exists>g t. cont = g @ url r @ t \<and> (\<forall>p<length g. \<not> linkStartsAt cont p)
                \<and> firstChoice (url r @ t) (url r) (fileId r) \<and> rs = extractFileIds t)"
    by (rule extractFileIds_Cons_iff)
  show "firstChoice s link ident \<and> firstChoice s link' ident' \<longrightarrow> link = link' \<and> ident = ident'"
    using firstChoice_unique by blast
qed (rule extractFileIds_exampleText, rule extractFileIds_exampleTwice)


theorem extractor_returns_links_in_order_witness:
  "list_all (\<lambda>r. isDriveLink (url r) (fileId r)) (extractFileIds exampleText)
   \<and> (\<exists>p. p \<le> length exampleText \<and> linkStartsAt exampleText p)
   \<and> (\<exists>g t. exampleText
                = g @ js ''https://drive.google.com/file/d/1aB2cD3eF4gH5iJ6kL7mN8oP9q/view'' @ t
              \<and> firstChoice
                   (js ''https://drive.google.com/file/d/1aB2cD3eF4gH5iJ6kL7mN8oP9q/view'' @ t)
                   (js ''https://drive.google.com/file/d/1aB2cD3eF4gH5iJ6kL7mN8oP9q/view'')
                   (js ''1aB2cD3eF4gH5iJ6kL7mN8oP9q'')
              \<and> \<not> firstChoice
                   (js ''https://drive.google.com/file/d/1aB2cD3eF4gH5iJ6kL7mN8oP9q/view'' @ t)
                   (js ''https://drive.google.com/file/d/1aB2cD3eF4gH5iJ6kL7mN8oP9'')
                   (js ''1aB2cD3eF4gH5iJ6kL7mN8oP9'')
              \<and> extractFileIds t =
                  [\<lparr>url = js ''https://drive.google.com/drive/folders/0B_abcdefghijklmnopqrstuvwx-yz'',
                    fileId = js ''0B_abcdefghijklmnopqrstuvwx-yz''\<rparr>])"
proof -
  let ?u = "js ''https://drive.google.com/file/d/1aB2cD3eF4gH5iJ6kL7mN8oP9q/view''"
  let ?i = "js ''1aB2cD3eF4gH5iJ6kL7mN8oP9q''"
  let ?r2 = "\<lparr>url = js ''https://drive.google.com/drive/folders/0B_abcdefghijklmnopqrstuvwx-yz'',
               fileId = js ''0B_abcdefghijklmnopqrstuvwx-yz''\<rparr>"
  note e = extractFileIds_exampleText
  note T = extractor_returns_links_in_order[where cont = exampleText
             and r = "\<lparr>url = ?u, fileId = ?i\<rparr>" and rs = "[?r2]"]
  have 1: "\<forall>r \<in> set (extractFileIds exampleText). isDriveLink (url r) (fileId r)"
    by (rule T[THEN conjunct1])
  have 2: "extractFileIds exampleText = []
             \<longleftrightarrow> (\<forall>p\<le>length exampleText. \<not> linkStartsAt exampleText p)"
    by (rule T[THEN conjunct2, THEN conjunct1])
  have "\<exists>g t. exampleText = g @ url \<lparr>url = ?u, fileId = ?i\<rparr> @ t
            \<and> (\<forall>p<length g. \<not> linkStartsAt exampleText p)
            \<and> firstChoice (url \<lparr>url = ?u, fileId = ?i\<rparr> @ t) (url \<lparr>url = ?u, fileId = ?i\<rparr>)
                 (fileId \<lparr>url = ?u, fileId = ?i\<rparr>)
            \<and> [?r2] = extractFileIds t"
    using T[THEN conjunct2, THEN conjunct2, THEN conjunct1] e by blast
  then obtain g t where
    3: "exampleText = g @ ?u @ t" "firstChoice (?u @ t) ?u ?i" "extractFileIds t = [?r2]"
    by (auto simp del: append_eq_append_conv2)
  have ne: "?i \<noteq> js ''1aB2cD3eF4gH5iJ6kL7mN8oP9''" by (simp add: js_def)
  have 4: "\<not> firstChoice (?u @ t) (js ''https://drive.google.com/file/d/1aB2cD3eF4gH5iJ6kL7mN8oP9'')
               (js ''1aB2cD3eF4gH5iJ6kL7mN8oP9'')"
    using extractor_returns_links_in_order[where s="?u @ t" and link="?u" and ident="?i"
            and link'="js ''https://drive.google.com/file/d/1aB2cD3eF4gH5iJ6kL7mN8oP9''"
            and ident'="js ''1aB2cD3eF4gH5iJ6kL7mN8oP9''",
            THEN conjunct2, THEN conjunct2, THEN conjunct2, THEN conjunct1] 3(2) ne
    by blast
  have a: "list_all (\<lambda>r. isDriveLink (url r) (fileId r)) (extractFileIds exampleText)"
    using 1 by (simp only: list_all_iff)
  have "extractFileIds exampleText \<noteq> []" unfolding e by simp
  then have b: "\<exists>p. p \<le> length exampleText \<and> linkStartsAt exampleText p" using 2 by blast
  have c: "\<exists>g t. exampleText = g @ ?u @ t \<and> firstChoice (?u @ t) ?u ?i
              \<and> \<not> firstChoice (?u @ t) (js ''https://drive.google.com/file/d/1aB2cD3eF4gH5iJ6kL7mN8oP9'')
                   (js ''1aB2cD3eF4gH5iJ6kL7mN8oP9'')
              \<and> extractFileIds t = [?r2]"
    using 3 4 by blast
  show ?thesis using a b c by (intro conjI)
qed





end
